theory Spec2Isabelle
  imports Main "HOL-Library.Word"
begin

section \<open>Bytes\<close>

text \<open>
  A byte (\<^verbatim>\<open>uint8_t\<close>, \<^verbatim>\<open>char\<close>) is a \<^typ>\<open>char\<close>, the 8-bit type of HOL, so that a
  \<^verbatim>\<open>std::string\<close> and a run of buffer bytes are both a \<^typ>\<open>string\<close>.
  Sizes and offsets (\<^verbatim>\<open>size_t\<close>) are natural numbers: a buffer cannot hold
  \<open>2 ^ 64\<close> bytes, so the arithmetic of the source on them never wraps.
\<close>

type_synonym byte = char

definition zero_byte :: byte where
  "zero_byte = CHR 0x00"

section \<open>Buffer (Buffer.h, Buffer.cpp)\<close>

definition BUFFER_SIZE :: nat where
  "BUFFER_SIZE = 1024 * 1024"

text \<open>
  \<^verbatim>\<open>mChunks\<close> is a deque of arrays of \<open>BUFFER_SIZE\<close> bytes; a chunk is the list of its
  bytes. \<^verbatim>\<open>emplace_back()\<close> value-initialises the new array, so a new chunk is all zero.
\<close>

record Buffer =
  mChunks :: "byte list list"
  mLastChunkOffset :: nat

definition new_Buffer :: Buffer where
  "new_Buffer = \<lparr>mChunks = [], mLastChunkOffset = 0\<rparr>"

definition Buffer_reset :: "Buffer \<Rightarrow> Buffer" where
  "Buffer_reset b = \<lparr>mChunks = [], mLastChunkOffset = 0\<rparr>"

definition getSize :: "Buffer \<Rightarrow> nat" where
  "getSize b =
     (if mChunks b = [] then 0
      else (length (mChunks b) - 1) * BUFFER_SIZE + mLastChunkOffset b)"

text \<open>\<^verbatim>\<open>std::memcpy(chunk + off, src, n)\<close> on a chunk.\<close>

definition memcpy_into :: "byte list \<Rightarrow> nat \<Rightarrow> byte list \<Rightarrow> byte list" where
  "memcpy_into chunk off src = take off chunk @ src @ drop (off + length src) chunk"

text \<open>
  The loop of \<^verbatim>\<open>Buffer::append(const void*, size_t)\<close>. The branch \<open>chunkSize = 0\<close> is
  never taken when \<open>mLastChunkOffset \<le> BUFFER_SIZE\<close>, which every buffer satisfies
  (\<open>buffer_ok\<close> below); it only makes the recursion total.
\<close>

function append_loop :: "Buffer \<Rightarrow> byte list \<Rightarrow> Buffer" where
  "append_loop b dataPtr =
     (if dataPtr = [] then b
      else
        let b1 = (if mChunks b = [] \<or> mLastChunkOffset b = BUFFER_SIZE
                  then \<lparr>mChunks = mChunks b @ [replicate BUFFER_SIZE zero_byte],
                        mLastChunkOffset = 0\<rparr>
                  else b);
            chunkSize = min (BUFFER_SIZE - mLastChunkOffset b1) (length dataPtr)
        in if chunkSize = 0 then b1
           else append_loop
                  \<lparr>mChunks = butlast (mChunks b1) @
                     [memcpy_into (last (mChunks b1)) (mLastChunkOffset b1)
                        (take chunkSize dataPtr)],
                   mLastChunkOffset = mLastChunkOffset b1 + chunkSize\<rparr>
                  (drop chunkSize dataPtr))"
  by pat_completeness auto
termination
  by (relation "measure (\<lambda>(b, d). length d)") (auto simp: Let_def)

declare append_loop.simps [simp del]

text \<open>\<^verbatim>\<open>bool Buffer::append(const void* data, size_t size)\<close>: the buffer afterwards.\<close>

definition Buffer_append :: "Buffer \<Rightarrow> byte list \<Rightarrow> Buffer" where
  "Buffer_append b bytes = (if bytes = [] then b else append_loop b bytes)"

text \<open>
  \<^verbatim>\<open>template<typename T> append(T data)\<close>, on the \<open>sizeof(T)\<close> bytes of the value: written
  in place when they fit into the last chunk.
\<close>

definition Buffer_append_T :: "Buffer \<Rightarrow> byte list \<Rightarrow> Buffer" where
  "Buffer_append_T b v =
     (if mChunks b = [] \<or> BUFFER_SIZE - mLastChunkOffset b < length v then Buffer_append b v
      else \<lparr>mChunks = butlast (mChunks b) @
              [memcpy_into (last (mChunks b)) (mLastChunkOffset b) v],
            mLastChunkOffset = mLastChunkOffset b + length v\<rparr>)"

text \<open>
  The copy loop of \<^verbatim>\<open>Buffer::read(void*, size_t, size_t)\<close>. The iterator \<^verbatim>\<open>chunk\<close> is
  advanced once, before the loop, and never inside it: every round reads the same chunk,
  from \<open>offset\<close> in the first round and from 0 afterwards. The guard
  \<open>BUFFER_SIZE \<le> offset\<close> is never true (the offset is a remainder modulo
  \<open>BUFFER_SIZE\<close>); it makes the recursion total.
\<close>

function read_loop :: "byte list \<Rightarrow> nat \<Rightarrow> nat \<Rightarrow> byte list" where
  "read_loop chunk offset bytesLeft =
     (if bytesLeft = 0 \<or> BUFFER_SIZE \<le> offset then []
      else
        let chunkSize = min (BUFFER_SIZE - offset) bytesLeft
        in take chunkSize (drop offset chunk) @ read_loop chunk 0 (bytesLeft - chunkSize))"
  by pat_completeness auto
termination
  by (relation "measure (\<lambda>(c, off, n). n)") (auto simp: Let_def)

declare read_loop.simps [simp del]

text \<open>
  \<^verbatim>\<open>size_t Buffer::read(void* data, size_t offset, size_t size)\<close>: the bytes copied to
  \<^verbatim>\<open>data\<close>; their number is the value returned. Nothing is copied when 0 is returned.
\<close>

definition Buffer_read :: "Buffer \<Rightarrow> nat \<Rightarrow> nat \<Rightarrow> byte list" where
  "Buffer_read b offset sz =
     (if sz = 0 then []
      else
        let bufferSize = getSize b in
        if offset > bufferSize then []
        else
          let size' = (if offset + sz > bufferSize then bufferSize - offset else sz);
              chunkIndex = offset div BUFFER_SIZE;
              offset' = offset - BUFFER_SIZE * chunkIndex
          in if size' = 0 then [] else read_loop (mChunks b ! chunkIndex) offset' size')"

text \<open>
  \<^verbatim>\<open>template<typename T> size_t read(T& data, size_t offset)\<close> with \<open>sz = sizeof(T)\<close>:
  the bytes of the value read, the empty list when 0 is returned. Where the value would
  cross the end of its chunk, the source calls the general \<^verbatim>\<open>read\<close> with the offset
  already reduced to the chunk.
\<close>

definition Buffer_read_T :: "Buffer \<Rightarrow> nat \<Rightarrow> nat \<Rightarrow> byte list" where
  "Buffer_read_T b sz offset =
     (if getSize b < offset + sz then []
      else
        let chunkIndex = offset div BUFFER_SIZE;
            offset' = offset - BUFFER_SIZE * chunkIndex
        in if BUFFER_SIZE < offset' + sz then Buffer_read b offset' sz
           else take sz (drop offset' (mChunks b ! chunkIndex)))"

fun linear_loop :: "byte list list \<Rightarrow> nat \<Rightarrow> byte list" where
  "linear_loop [] bytesLeft = []"
| "linear_loop (chunk # chunks) bytesLeft =
     (let chunkSize = min BUFFER_SIZE bytesLeft
      in take chunkSize chunk @ linear_loop chunks (bytesLeft - chunkSize))"

definition getLinearRepresentation :: "Buffer \<Rightarrow> byte list" where
  "getLinearRepresentation b = linear_loop (mChunks b) (getSize b)"

text \<open>What every buffer built by \<open>new_Buffer\<close>, \<open>Buffer_append\<close> and \<open>Buffer_append_T\<close> satisfies.\<close>

definition buffer_ok :: "Buffer \<Rightarrow> bool" where
  "buffer_ok b \<longleftrightarrow>
     list_all (\<lambda>c. length c = BUFFER_SIZE) (mChunks b) \<and> mLastChunkOffset b \<le> BUFFER_SIZE"

subsection \<open>The buffer as a byte sequence\<close>

lemma BUFFER_SIZE_pos: "0 < BUFFER_SIZE"
  by (simp add: BUFFER_SIZE_def)

lemma length_concat_chunks:
  "list_all (\<lambda>c. length c = BUFFER_SIZE) cs \<Longrightarrow> length (concat cs) = length cs * BUFFER_SIZE"
  by (induction cs) auto

lemma linear_loop_take:
  "list_all (\<lambda>c. length c = BUFFER_SIZE) cs \<Longrightarrow> linear_loop cs n = take n (concat cs)"
proof (induction cs arbitrary: n)
  case Nil
  then show ?case by simp
next
  case (Cons c cs)
  then show ?case
    by (cases "n \<le> BUFFER_SIZE") (auto simp: Let_def min_def)
qed

definition content :: "Buffer \<Rightarrow> byte list" where
  "content b = take (getSize b) (concat (mChunks b))"

lemma linear_content: "buffer_ok b \<Longrightarrow> getLinearRepresentation b = content b"
  by (simp add: getLinearRepresentation_def content_def buffer_ok_def linear_loop_take)

lemma content_snoc:
  assumes "list_all (\<lambda>c. length c = BUFFER_SIZE) cs" "length c = BUFFER_SIZE" "off \<le> BUFFER_SIZE"
  shows "content \<lparr>mChunks = cs @ [c], mLastChunkOffset = off\<rparr> = concat cs @ take off c"
  using assms by (simp add: content_def getSize_def length_concat_chunks)

lemma length_content: "buffer_ok b \<Longrightarrow> length (content b) = getSize b"
  by (cases "mChunks b" rule: rev_cases)
     (auto simp: content_def getSize_def buffer_ok_def length_concat_chunks)

lemma append_loop_ok:
  "buffer_ok b \<Longrightarrow> buffer_ok (append_loop b d) \<and> content (append_loop b d) = content b @ d"
proof (induction b d rule: append_loop.induct)
  case (1 b d)
  show ?case
  proof (cases "d = []")
    case True
    with 1 show ?thesis by (simp add: append_loop.simps)
  next
    case False
    define b1 where "b1 = (if mChunks b = [] \<or> mLastChunkOffset b = BUFFER_SIZE
                  then \<lparr>mChunks = mChunks b @ [replicate BUFFER_SIZE zero_byte],
                        mLastChunkOffset = 0\<rparr>
                  else b)"
    define chunkSize where "chunkSize = min (BUFFER_SIZE - mLastChunkOffset b1) (length d)"
    define b2 where "b2 = \<lparr>mChunks = butlast (mChunks b1) @
                     [memcpy_into (last (mChunks b1)) (mLastChunkOffset b1)
                        (take chunkSize d)],
                   mLastChunkOffset = mLastChunkOffset b1 + chunkSize\<rparr>"
    have ok1: "buffer_ok b1" "mChunks b1 \<noteq> []" "mLastChunkOffset b1 < BUFFER_SIZE"
      using "1.prems" BUFFER_SIZE_pos by (auto simp: b1_def buffer_ok_def)
    have c1: "content b1 = content b"
    proof (cases "mChunks b = []")
      case True
      then show ?thesis
        by (simp add: b1_def content_def getSize_def)
    next
      case ne: False
      show ?thesis
      proof (cases "mLastChunkOffset b = BUFFER_SIZE")
        case True
        obtain cs c where cs: "mChunks b = cs @ [c]"
          using ne by (cases "mChunks b" rule: rev_cases) auto
        with True "1.prems" show ?thesis
          by (simp add: b1_def content_def getSize_def buffer_ok_def length_concat_chunks)
      next
        case False
        with ne show ?thesis by (simp add: b1_def)
      qed
    qed
    have pos: "0 < chunkSize" using ok1 False by (simp add: chunkSize_def)
    obtain cs c where cs: "mChunks b1 = cs @ [c]"
      using ok1 by (cases "mChunks b1" rule: rev_cases) auto
    have lc: "length c = BUFFER_SIZE" "list_all (\<lambda>c. length c = BUFFER_SIZE) cs"
      using ok1 cs by (auto simp: buffer_ok_def)
    have le: "mLastChunkOffset b1 + chunkSize \<le> BUFFER_SIZE" "chunkSize \<le> length d"
      using ok1 by (auto simp: chunkSize_def)
    have ok2: "buffer_ok b2"
      using lc le cs by (auto simp: b2_def buffer_ok_def memcpy_into_def)
    have c2: "content b2 = content b1 @ take chunkSize d"
    proof -
      have "content b2 = concat cs @ take (mLastChunkOffset b1 + chunkSize)
              (memcpy_into c (mLastChunkOffset b1) (take chunkSize d))"
        unfolding b2_def cs using lc le
        by (simp add: content_snoc memcpy_into_def)
      also have "\<dots> = concat cs @ take (mLastChunkOffset b1) c @ take chunkSize d"
        using lc le by (simp add: memcpy_into_def)
      also have "\<dots> = content b1 @ take chunkSize d"
      proof -
        have "b1 = \<lparr>mChunks = cs @ [c], mLastChunkOffset = mLastChunkOffset b1\<rparr>"
          using cs by simp
        then have "content b1 = concat cs @ take (mLastChunkOffset b1) c"
          using content_snoc[OF lc(2) lc(1), of "mLastChunkOffset b1"] ok1 by simp
        then show ?thesis by simp
      qed
      finally show ?thesis .
    qed
    have step: "append_loop b d = append_loop b2 (drop chunkSize d)"
      using False pos
      by (subst append_loop.simps) (simp add: Let_def b1_def [symmetric] chunkSize_def [symmetric] b2_def [symmetric])
    have IH: "buffer_ok (append_loop b2 (drop chunkSize d)) \<and>
          content (append_loop b2 (drop chunkSize d)) = content b2 @ drop chunkSize d"
      using "1.IH"[OF False b1_def chunkSize_def _ ok2[unfolded b2_def]] pos
      by (simp add: b2_def)
    show ?thesis
      using IH c1 c2 step by simp
  qed
qed

lemma Buffer_append_ok:
  "buffer_ok b \<Longrightarrow> buffer_ok (Buffer_append b d) \<and> content (Buffer_append b d) = content b @ d"
  by (simp add: Buffer_append_def append_loop_ok)

lemma Buffer_append_T_ok:
  assumes "buffer_ok b"
  shows "buffer_ok (Buffer_append_T b v) \<and> content (Buffer_append_T b v) = content b @ v"
proof (cases "mChunks b = [] \<or> BUFFER_SIZE - mLastChunkOffset b < length v")
  case True
  then show ?thesis using assms by (simp add: Buffer_append_T_def Buffer_append_ok)
next
  case False
  then obtain cs c where cs: "mChunks b = cs @ [c]"
    by (cases "mChunks b" rule: rev_cases) auto
  have lc: "length c = BUFFER_SIZE" "list_all (\<lambda>c. length c = BUFFER_SIZE) cs"
      "mLastChunkOffset b \<le> BUFFER_SIZE"
    using assms cs by (auto simp: buffer_ok_def)
  have le: "mLastChunkOffset b + length v \<le> BUFFER_SIZE"
    using False lc by linarith
  have b: "b = \<lparr>mChunks = cs @ [c], mLastChunkOffset = mLastChunkOffset b\<rparr>"
    using cs by simp
  have cb: "content b = concat cs @ take (mLastChunkOffset b) c"
    using content_snoc[OF lc(2) lc(1) lc(3)] b by simp
  have eq: "Buffer_append_T b v = \<lparr>mChunks = cs @ [memcpy_into c (mLastChunkOffset b) v],
            mLastChunkOffset = mLastChunkOffset b + length v\<rparr>"
    using False cs by (simp add: Buffer_append_T_def)
  have "content (Buffer_append_T b v) = concat cs @ take (mLastChunkOffset b + length v)
            (memcpy_into c (mLastChunkOffset b) v)"
    unfolding eq using lc le by (simp add: content_snoc memcpy_into_def)
  also have "\<dots> = content b @ v"
    using lc le cb by (simp add: memcpy_into_def)
  finally have "content (Buffer_append_T b v) = content b @ v" .
  moreover have "buffer_ok (Buffer_append_T b v)"
    unfolding eq using lc le by (simp add: buffer_ok_def memcpy_into_def)
  ultimately show ?thesis by simp
qed

lemma new_Buffer_ok: "buffer_ok new_Buffer \<and> content new_Buffer = []"
  by (simp add: new_Buffer_def buffer_ok_def content_def)

lemma drop_concat_chunks:
  "list_all (\<lambda>c. length c = BUFFER_SIZE) cs \<Longrightarrow> i < length cs \<Longrightarrow> j \<le> BUFFER_SIZE \<Longrightarrow>
   drop (i * BUFFER_SIZE + j) (concat cs) = drop j (cs ! i) @ concat (drop (Suc i) cs)"
proof (induction cs arbitrary: i)
  case Nil
  then show ?case by simp
next
  case (Cons c cs)
  then show ?case by (cases i) (auto simp: add.assoc)
qed

lemma read_loop_once:
  assumes "0 < n" "off + n \<le> BUFFER_SIZE"
  shows "read_loop c off n = take n (drop off c)"
proof -
  have m: "min (BUFFER_SIZE - off) n = n" "\<not> BUFFER_SIZE \<le> off"
    using assms by auto
  have z: "read_loop c 0 0 = []"
    by (subst read_loop.simps) simp
  show ?thesis
    using assms by (subst read_loop.simps) (simp add: Let_def m z)
qed

lemma getSize_chunk_index:
  assumes "buffer_ok b" "offset < getSize b"
  shows "offset div BUFFER_SIZE < length (mChunks b)"
proof -
  have ne: "mChunks b \<noteq> []" using assms by (auto simp: getSize_def split: if_splits)
  have "getSize b \<le> length (mChunks b) * BUFFER_SIZE"
  proof -
    have "getSize b = (length (mChunks b) - 1) * BUFFER_SIZE + mLastChunkOffset b"
      using ne by (simp add: getSize_def)
    also have "\<dots> \<le> (length (mChunks b) - 1) * BUFFER_SIZE + BUFFER_SIZE"
      using assms by (simp add: buffer_ok_def)
    also have "\<dots> = length (mChunks b) * BUFFER_SIZE"
      using ne by (cases "mChunks b") auto
    finally show ?thesis .
  qed
  with assms have "offset < length (mChunks b) * BUFFER_SIZE" by simp
  then show ?thesis using BUFFER_SIZE_pos
    by (simp add: less_mult_imp_div_less)
qed

lemma slice_in_chunk:
  assumes ok: "buffer_ok b" and lt: "offset < getSize b" and n: "offset + n \<le> getSize b"
    and fit: "offset mod BUFFER_SIZE + n \<le> BUFFER_SIZE"
  shows "take n (drop (offset mod BUFFER_SIZE) (mChunks b ! (offset div BUFFER_SIZE)))
         = take n (drop offset (content b))"
proof -
  let ?i = "offset div BUFFER_SIZE" and ?j = "offset mod BUFFER_SIZE"
  have i: "?i < length (mChunks b)" by (rule getSize_chunk_index[OF ok lt])
  have all: "list_all (\<lambda>c. length c = BUFFER_SIZE) (mChunks b)"
    using ok by (simp add: buffer_ok_def)
  have len: "length (mChunks b ! ?i) = BUFFER_SIZE"
    using all i by (simp add: list_all_length)
  have off: "offset = ?i * BUFFER_SIZE + ?j" by simp
  have "drop offset (concat (mChunks b)) = drop ?j (mChunks b ! ?i) @ concat (drop (Suc ?i) (mChunks b))"
    using drop_concat_chunks[OF all i, of ?j] BUFFER_SIZE_pos by simp
  moreover have "take n (drop offset (content b)) = take n (drop offset (concat (mChunks b)))"
    using n by (simp add: content_def drop_take min_def)
  ultimately show ?thesis using fit len by simp
qed

lemma Buffer_read_in_chunk:
  assumes ok: "buffer_ok b" and le: "offset \<le> getSize b"
    and fit: "offset mod BUFFER_SIZE + min sz (getSize b - offset) \<le> BUFFER_SIZE"
  shows "Buffer_read b offset sz = take sz (drop offset (content b))"
proof (cases "sz = 0 \<or> offset = getSize b")
  case True
  then show ?thesis using length_content[OF ok] by (auto simp: Buffer_read_def Let_def)
next
  case False
  define n where "n = min sz (getSize b - offset)"
  have n: "0 < n" "offset + n \<le> getSize b" "offset < getSize b"
    using False le by (auto simp: n_def)
  have m: "offset - BUFFER_SIZE * (offset div BUFFER_SIZE) = offset mod BUFFER_SIZE"
    by (simp add: minus_mult_div_eq_mod)
  have "Buffer_read b offset sz = read_loop (mChunks b ! (offset div BUFFER_SIZE)) (offset mod BUFFER_SIZE) n"
    using False le n by (auto simp: Buffer_read_def Let_def m n_def min_def)
  also have "\<dots> = take n (drop (offset mod BUFFER_SIZE) (mChunks b ! (offset div BUFFER_SIZE)))"
    using fit n by (simp add: read_loop_once n_def)
  also have "\<dots> = take n (drop offset (content b))"
    using fit by (intro slice_in_chunk[OF ok n(3) n(2)]) (simp add: n_def)
  also have "\<dots> = take sz (drop offset (content b))"
    using length_content[OF ok] by (simp add: n_def min_def)
  finally show ?thesis .
qed

lemma Buffer_read_T_in_chunk:
  assumes ok: "buffer_ok b" and sz: "0 < sz" and le: "offset + sz \<le> getSize b"
    and fit: "offset mod BUFFER_SIZE + sz \<le> BUFFER_SIZE"
  shows "Buffer_read_T b sz offset = take sz (drop offset (content b))"
proof -
  have m: "offset - BUFFER_SIZE * (offset div BUFFER_SIZE) = offset mod BUFFER_SIZE"
    by (simp add: minus_mult_div_eq_mod)
  have "Buffer_read_T b sz offset = take sz (drop (offset mod BUFFER_SIZE) (mChunks b ! (offset div BUFFER_SIZE)))"
    using le fit by (simp add: Buffer_read_T_def Let_def m)
  also have "\<dots> = take sz (drop offset (content b))"
    using sz le fit by (intro slice_in_chunk[OF ok]) auto
  finally show ?thesis .
qed

lemma Buffer_read_T_past_end:
  "getSize b < offset + sz \<Longrightarrow> Buffer_read_T b sz offset = []"
  by (simp add: Buffer_read_T_def)

lemma two_chunk_buffer:
  "Buffer_append new_Buffer (replicate BUFFER_SIZE (CHR 0x01) @ [CHR 0x02]) =
     \<lparr>mChunks = [replicate BUFFER_SIZE (CHR 0x01), CHR 0x02 # replicate (BUFFER_SIZE - 1) zero_byte],
      mLastChunkOffset = 1\<rparr>"
  apply (simp add: Buffer_append_def new_Buffer_def)
  apply (subst append_loop.simps)
  apply (simp add: Let_def BUFFER_SIZE_def memcpy_into_def)
  apply (subst append_loop.simps)
  apply (simp add: Let_def BUFFER_SIZE_def memcpy_into_def)
  apply (subst append_loop.simps)
  apply (simp add: Let_def BUFFER_SIZE_def memcpy_into_def)
  done

text \<open>
  C9 (the read of \<open>len\<close> bytes at \<open>offset\<close> is the slice
  \<open>linearize()[offset .. min(offset+len, N)]\<close>): evaluated on the buffer that holds
  \<open>BUFFER_SIZE\<close> bytes 01 and then one byte 02. Its size is \<open>BUFFER_SIZE + 1\<close>, the slice
  of two bytes at \<open>BUFFER_SIZE - 1\<close> is 01 02, and \<open>Buffer_read\<close> returns 01 01: after the
  last byte of the first chunk the loop starts again at the head of the same chunk.
\<close>

theorem C9_read_across_chunk_boundary:
  "getSize (Buffer_append new_Buffer (replicate BUFFER_SIZE (CHR 0x01) @ [CHR 0x02])) = BUFFER_SIZE + 1 \<and>
   Buffer_read (Buffer_append new_Buffer (replicate BUFFER_SIZE (CHR 0x01) @ [CHR 0x02]))
     (BUFFER_SIZE - 1) 2 = [CHR 0x01, CHR 0x01] \<and>
   take 2 (drop (BUFFER_SIZE - 1)
     (getLinearRepresentation (Buffer_append new_Buffer (replicate BUFFER_SIZE (CHR 0x01) @ [CHR 0x02]))))
     = [CHR 0x01, CHR 0x02]"
proof -
  let ?b = "Buffer_append new_Buffer (replicate BUFFER_SIZE (CHR 0x01) @ [CHR 0x02])"
  have sz: "getSize ?b = BUFFER_SIZE + 1"
    by (simp add: two_chunk_buffer getSize_def)
  have r1: "read_loop (replicate BUFFER_SIZE (CHR 0x01)) 0 (Suc 0) = [CHR 0x01]"
    using read_loop_once[of "Suc 0" 0 "replicate BUFFER_SIZE (CHR 0x01)"]
    by (simp add: BUFFER_SIZE_def)
  have r2: "read_loop (replicate BUFFER_SIZE (CHR 0x01)) (BUFFER_SIZE - 1) 2 = [CHR 0x01, CHR 0x01]"
    by (subst read_loop.simps) (simp add: Let_def r1, simp add: BUFFER_SIZE_def)
  have rd: "Buffer_read ?b (BUFFER_SIZE - 1) 2 = [CHR 0x01, CHR 0x01]"
    unfolding Buffer_read_def sz Let_def
    using r2 by (simp add: two_chunk_buffer) (simp add: BUFFER_SIZE_def)
  have lin: "getLinearRepresentation ?b = replicate BUFFER_SIZE (CHR 0x01) @ [CHR 0x02]"
    using Buffer_append_ok[of new_Buffer "replicate BUFFER_SIZE (CHR 0x01) @ [CHR 0x02]"]
      new_Buffer_ok by (simp add: linear_content)
  have sl: "take 2 (drop (BUFFER_SIZE - 1) (getLinearRepresentation ?b)) = [CHR 0x01, CHR 0x02]"
    unfolding lin by (simp add: BUFFER_SIZE_def)
  show ?thesis using sz rd sl by simp
qed

section \<open>Errors\<close>

datatype error =
    overflow_error
  | CharSizeNotSet
  | InvalidCharSize
  | UnsupportedOpcode
  | AttributeOutsideTag
  | out_of_range
  | invalid_utf
  | IncompatibleAttributeType
  | bad_variant_access
  | NameNotFound
  | UnsupportedFormat
  | UnexpectedBlobSize
  | BlockNotFound
  | FormatMismatch
  | SQLiteException
  | length_error
  | UndefinedBehaviour
  | terminate_called

section \<open>Little-endian scalars\<close>

fun le_bytes :: "nat \<Rightarrow> nat \<Rightarrow> byte list" where
  "le_bytes 0 v = []"
| "le_bytes (Suc n) v = char_of (v mod 256) # le_bytes n (v div 256)"

fun le_nat :: "byte list \<Rightarrow> nat" where
  "le_nat [] = 0"
| "le_nat (b # bs) = of_char b + 256 * le_nat bs"

definition bytes_u16 :: "16 word \<Rightarrow> byte list" where "bytes_u16 w = le_bytes 2 (unat w)"
definition bytes_u32 :: "32 word \<Rightarrow> byte list" where "bytes_u32 w = le_bytes 4 (unat w)"
definition bytes_u64 :: "64 word \<Rightarrow> byte list" where "bytes_u64 w = le_bytes 8 (unat w)"

section \<open>SampleFormat (SampleFormat.h, SampleFormat.cpp)\<close>

definition Int16 :: "32 word" where "Int16 = 0x00020001"
definition Int24 :: "32 word" where "Int24 = 0x00040001"
definition Float32 :: "32 word" where "Float32 = 0x0004000F"

definition BytesPerSample :: "32 word \<Rightarrow> error + nat" where
  "BytesPerSample format =
     (if format = Int16 then Inr 2
      else if format = Int24 then Inr 3
      else if format = Float32 then Inr 4
      else Inl UnsupportedFormat)"

definition DiskBytesPerSample :: "32 word \<Rightarrow> error + nat" where
  "DiskBytesPerSample format =
     (if format = Int16 then Inr 2
      else if format = Int24 then Inr 4
      else if format = Float32 then Inr 4
      else Inl UnsupportedFormat)"

section \<open>WaveFile (WaveFile.h, WaveFile.cpp)\<close>

record WaveFile =
  mFmt :: "32 word"
  mSampleRate :: "32 word"
  mNumChannels :: "16 word"
  mChannels :: "Buffer list"

definition new_WaveFile :: "32 word \<Rightarrow> 32 word \<Rightarrow> 16 word \<Rightarrow> WaveFile" where
  "new_WaveFile fmt sampleRate numChannels =
     \<lparr>mFmt = fmt, mSampleRate = sampleRate, mNumChannels = numChannels,
      mChannels = replicate (unat numChannels) new_Buffer\<rparr>"

definition writeBlock :: "WaveFile \<Rightarrow> byte list \<Rightarrow> nat \<Rightarrow> error + WaveFile" where
  "writeBlock w bytes channel =
     (if channel < length (mChannels w)
      then Inr (w\<lparr>mChannels := (mChannels w)[channel := Buffer_append (mChannels w ! channel) bytes]\<rparr>)
      else Inl out_of_range)"

record Header =
  ChunkSize :: "32 word"
  Subchunk1Size :: "32 word"
  AudioFormat :: "16 word"
  NumChannels :: "16 word"
  SampleRate :: "32 word"
  ByteRate :: "32 word"
  BlockAlign :: "16 word"
  BitsPerSample :: "16 word"
  Subchunk2Size :: "32 word"

definition Header_bytes :: "Header \<Rightarrow> byte list" where
  "Header_bytes h =
     ''RIFF'' @ bytes_u32 (ChunkSize h) @ ''WAVE'' @ ''fmt '' @ bytes_u32 (Subchunk1Size h) @
     bytes_u16 (AudioFormat h) @ bytes_u16 (NumChannels h) @ bytes_u32 (SampleRate h) @
     bytes_u32 (ByteRate h) @ bytes_u16 (BlockAlign h) @ bytes_u16 (BitsPerSample h) @
     ''data'' @ bytes_u32 (Subchunk2Size h)"

text \<open>\<^verbatim>\<open>std::max_element\<close> with the comparison \<open>lhs.getSize() < rhs.getSize()\<close>.\<close>

fun max_element :: "Buffer \<Rightarrow> Buffer list \<Rightarrow> Buffer" where
  "max_element largest [] = largest"
| "max_element largest (x # xs) =
     max_element (if getSize largest < getSize x then x else largest) xs"

text \<open>The inner loop of \<open>writeFile\<close>, over the channels, on the vector \<open>sampleData\<close>.\<close>

definition channel_step :: "Buffer list \<Rightarrow> nat \<Rightarrow> nat \<Rightarrow> nat \<Rightarrow> byte list \<Rightarrow> byte list" where
  "channel_step channels bytesPerSample offset channelIndex sampleData =
     (let buffer = channels ! channelIndex;
          bufferSize = getSize buffer
      in if bufferSize \<ge> offset
         then memcpy_into sampleData (channelIndex * bytesPerSample)
                (Buffer_read buffer offset bytesPerSample)
         else memcpy_into sampleData (channelIndex * bytesPerSample)
                (replicate bytesPerSample zero_byte))"

text \<open>
  The outer loop, over the samples: the state is \<open>sampleData\<close>, which lives across the
  rounds, and the bytes written to the file so far.
\<close>

definition sample_step ::
  "Buffer list \<Rightarrow> nat \<Rightarrow> nat \<Rightarrow> nat \<Rightarrow> byte list \<times> byte list \<Rightarrow> byte list \<times> byte list" where
  "sample_step channels numChannels bytesPerSample sampleIndex st =
     (let offset = sampleIndex * bytesPerSample;
          sampleData = fold (channel_step channels bytesPerSample offset) [0..<numChannels] (fst st)
      in (sampleData, snd st @ sampleData))"

text \<open>
  \<open>writeFile\<close>: the bytes written to the file, header first. Failures of the file system
  are outside the model. With no channel \<^verbatim>\<open>std::max_element\<close> returns the end iterator,
  which the source dereferences.
\<close>

definition writeFile_header :: "WaveFile \<Rightarrow> nat \<Rightarrow> nat \<Rightarrow> Header" where
  "writeFile_header w bytesPerSample dataSize =
     \<lparr>ChunkSize = 36 + of_nat dataSize,
      Subchunk1Size = 16,
      AudioFormat = (if mFmt w = Float32 then 3 else 1),
      NumChannels = mNumChannels w,
      SampleRate = mSampleRate w,
      ByteRate = mSampleRate w * ucast (mNumChannels w) * of_nat bytesPerSample,
      BlockAlign = mNumChannels w * of_nat bytesPerSample,
      BitsPerSample = of_nat bytesPerSample * 8,
      Subchunk2Size = of_nat dataSize\<rparr>"

definition writeFile_data :: "WaveFile \<Rightarrow> nat \<Rightarrow> nat \<Rightarrow> byte list" where
  "writeFile_data w bytesPerSample maxSamples =
     snd (fold (sample_step (mChannels w) (unat (mNumChannels w)) bytesPerSample) [0..<maxSamples]
            (replicate (unat (mNumChannels w) * bytesPerSample) zero_byte, []))"

definition writeFile :: "WaveFile \<Rightarrow> error + (Header \<times> byte list)" where
  "writeFile w =
     (case BytesPerSample (mFmt w) of
        Inl e \<Rightarrow> Inl e
      | Inr bytesPerSample \<Rightarrow>
          (case mChannels w of
             [] \<Rightarrow> Inl UndefinedBehaviour
           | c # cs \<Rightarrow>
               let it = max_element c cs;
                   dataSize = unat (mNumChannels w) * getSize it;
                   maxSamples = getSize it div bytesPerSample
               in Inr (writeFile_header w bytesPerSample dataSize,
                       writeFile_data w bytesPerSample maxSamples)))"

lemma getSize_append_new:
  "bs \<noteq> [] \<Longrightarrow> getSize (Buffer_append new_Buffer bs) = length bs"
  using Buffer_append_ok[of new_Buffer bs] new_Buffer_ok
    length_content[of "Buffer_append new_Buffer bs"] by simp

lemma read_append_new:
  "length bs \<le> BUFFER_SIZE \<Longrightarrow> off \<le> length bs \<Longrightarrow>
   Buffer_read (Buffer_append new_Buffer bs) off n = take n (drop off bs)"
proof (cases "bs = []")
  case True
  then show ?thesis by (simp add: Buffer_append_def Buffer_read_def new_Buffer_def getSize_def)
next
  case False
  assume a: "length bs \<le> BUFFER_SIZE" "off \<le> length bs"
  let ?b = "Buffer_append new_Buffer bs"
  have ok: "buffer_ok ?b" and c: "content ?b = bs"
    using Buffer_append_ok[of new_Buffer bs] new_Buffer_ok by simp_all
  have sz: "getSize ?b = length bs" using False by (rule getSize_append_new)
  have "off mod BUFFER_SIZE + min n (getSize ?b - off) \<le> BUFFER_SIZE"
    using a sz mod_less_eq_dividend[of off BUFFER_SIZE] by linarith
  from Buffer_read_in_chunk[OF ok _ this] a sz c show ?thesis by simp
qed

text \<open>
  C3 (the data section has length \<open>C * max\<close>, is zero where a channel is shorter than the longest,
  and \<open>Subchunk2Size\<close> is \<open>C * max\<close>): evaluated on an \<open>Int16\<close> file of two channels, the
  first holding the four bytes 01 02 03 04 and the second the two bytes 05 06.
  \<open>Subchunk2Size\<close> is 8 and eight bytes are written, but the second sample of the second
  channel is 05 06, the bytes of its first sample, and not 00 00: at \<open>offset = 2\<close> the
  test \<open>bufferSize \<ge> offset\<close> sends the exhausted channel to \<open>Buffer_read\<close>, which
  copies nothing, and \<open>sampleData\<close> keeps what the round before left there.
\<close>

theorem C3_stale_sample_instead_of_zero:
  "map_sum id (\<lambda>(h, d). (Subchunk2Size h, d)) (case writeBlock (new_WaveFile Int16 44100 2) [CHR 0x01, CHR 0x02, CHR 0x03, CHR 0x04] 0 of
      Inl e \<Rightarrow> Inl e
    | Inr w1 \<Rightarrow> (case writeBlock w1 [CHR 0x05, CHR 0x06] 1 of Inl e \<Rightarrow> Inl e | Inr w2 \<Rightarrow> writeFile w2))
   = Inr (8, [CHR 0x01, CHR 0x02, CHR 0x05, CHR 0x06, CHR 0x03, CHR 0x04, CHR 0x05, CHR 0x06])"
proof -
  let ?b0 = "Buffer_append new_Buffer [CHR 0x01, CHR 0x02, CHR 0x03, CHR 0x04]"
  let ?b1 = "Buffer_append new_Buffer [CHR 0x05, CHR 0x06]"
  let ?w2 = "\<lparr>mFmt = Int16, mSampleRate = 44100, mNumChannels = 2, mChannels = [?b0, ?b1]\<rparr>"
  have w0: "new_WaveFile Int16 44100 2 =
      \<lparr>mFmt = Int16, mSampleRate = 44100, mNumChannels = 2, mChannels = [new_Buffer, new_Buffer]\<rparr>"
    by (simp add: new_WaveFile_def) (simp add: numeral_2_eq_2)
  have w2: "(case writeBlock (new_WaveFile Int16 44100 2) [CHR 0x01, CHR 0x02, CHR 0x03, CHR 0x04] 0 of
      Inl e \<Rightarrow> Inl e
    | Inr w1 \<Rightarrow> (case writeBlock w1 [CHR 0x05, CHR 0x06] 1 of Inl e \<Rightarrow> Inl e | Inr w2 \<Rightarrow> writeFile w2))
    = writeFile ?w2"
    by (simp add: w0 writeBlock_def)
  have sizes: "getSize ?b0 = 4" "getSize ?b1 = 2"
    by (simp_all add: getSize_append_new)
  have rd: "Buffer_read ?b0 0 2 = [CHR 0x01, CHR 0x02]" "Buffer_read ?b0 2 2 = [CHR 0x03, CHR 0x04]"
    "Buffer_read ?b1 0 2 = [CHR 0x05, CHR 0x06]" "Buffer_read ?b1 2 2 = []"
    by (simp_all add: read_append_new BUFFER_SIZE_def)
  have u2: "[0..<2] = [0, 1::nat]"
    by (simp add: upt_rec)
  have z4: "replicate 4 zero_byte = [zero_byte, zero_byte, zero_byte, zero_byte]"
    by (simp add: numeral_eq_Suc)
  have s0: "fold (channel_step [?b0, ?b1] 2 0) [0, 1] (replicate 4 zero_byte)
      = [CHR 0x01, CHR 0x02, CHR 0x05, CHR 0x06]"
    by (simp add: channel_step_def sizes rd memcpy_into_def Let_def z4 zero_byte_def)
  have s1: "fold (channel_step [?b0, ?b1] 2 2) [0, 1] [CHR 0x01, CHR 0x02, CHR 0x05, CHR 0x06]
      = [CHR 0x03, CHR 0x04, CHR 0x05, CHR 0x06]"
    by (simp add: channel_step_def sizes rd memcpy_into_def Let_def)
  have data: "writeFile_data ?w2 2 2
      = [CHR 0x01, CHR 0x02, CHR 0x05, CHR 0x06, CHR 0x03, CHR 0x04, CHR 0x05, CHR 0x06]"
    using s0 s1 by (simp add: writeFile_data_def u2 sample_step_def Let_def)
  have "map_sum id (\<lambda>(h, d). (Subchunk2Size h, d)) (writeFile ?w2) = Inr (8, writeFile_data ?w2 2 2)"
    by (simp add: writeFile_def BytesPerSample_def sizes Let_def writeFile_header_def)
  then show ?thesis
    by (simp only: w2 data)
qed

section \<open>Attributes (XMLHandler.h)\<close>

text \<open>
  The alternatives of \<^verbatim>\<open>std::variant<bool, int32_t, uint32_t, int64_t, size_t, float, double,
  std::string_view>\<close>. A \<^verbatim>\<open>float\<close> or a \<^verbatim>\<open>double\<close> is its IEEE bit pattern.
\<close>

datatype AttributeValue =
    AV_bool bool
  | AV_int32 "32 word"
  | AV_uint32 "32 word"
  | AV_int64 "64 word"
  | AV_size_t "64 word"
  | AV_float "32 word"
  | AV_double "64 word"
  | AV_string string

record Attribute =
  Name :: string
  Value :: AttributeValue

text \<open>
  \<^verbatim>\<open>GetAttributeValue<bool>\<close>. For an arithmetic alternative the branch
  \<^verbatim>\<open>is_convertible_v<Ret, T>\<close> is taken and the value is cast to \<^verbatim>\<open>bool\<close>: it is true when
  the value is not zero (for a floating-point value: when it is neither \<open>+0\<close> nor \<open>-0\<close>,
  that is when a bit other than the sign bit is set). For a string the branch
  \<^verbatim>\<open>is_same_v<T, std::string_view>\<close> is taken.
\<close>

fun GetAttributeValue_bool :: "AttributeValue \<Rightarrow> error + bool" where
  "GetAttributeValue_bool (AV_bool arg) = Inr arg"
| "GetAttributeValue_bool (AV_int32 arg) = Inr (arg \<noteq> 0)"
| "GetAttributeValue_bool (AV_uint32 arg) = Inr (arg \<noteq> 0)"
| "GetAttributeValue_bool (AV_int64 arg) = Inr (arg \<noteq> 0)"
| "GetAttributeValue_bool (AV_size_t arg) = Inr (arg \<noteq> 0)"
| "GetAttributeValue_bool (AV_float arg) = Inr (take_bit 31 arg \<noteq> 0)"
| "GetAttributeValue_bool (AV_double arg) = Inr (take_bit 63 arg \<noteq> 0)"
| "GetAttributeValue_bool (AV_string arg) = Inr (arg = ''true'' \<or> arg = ''0'')"

section \<open>IdsLookup (BinaryXMLConverter.cpp)\<close>

text \<open>
  \<^verbatim>\<open>IdsLookup::store\<close> on the vector \<^verbatim>\<open>mIds\<close>. \<^verbatim>\<open>mIds.resize(index)\<close> leaves
  \<open>index\<close> entries; \<^verbatim>\<open>mIds[index]\<close> past the end of the vector is undefined behaviour.
\<close>

definition IdsLookup_store :: "string list \<Rightarrow> 16 word \<Rightarrow> string \<Rightarrow> error + string list" where
  "IdsLookup_store mIds index val =
     (let size = length mIds in
      if unat index = size then Inr (mIds @ [val])
      else
        let mIds' = (if unat index + 1 < size then take (unat index) mIds else mIds)
        in if unat index < length mIds' then Inr (mIds'[unat index := val])
           else Inl UndefinedBehaviour)"

definition IdsLookup_get :: "string list \<Rightarrow> 16 word \<Rightarrow> error + string" where
  "IdsLookup_get mIds index =
     (if unat index < length mIds then Inr (mIds ! unat index) else Inl out_of_range)"

text \<open>
  C10: a string attribute coerced to \<^verbatim>\<open>bool\<close> is true exactly when the string is \<open>true\<close>
  or \<open>0\<close>; so \<open>0\<close> gives true and \<open>1\<close> gives false.
\<close>

theorem C10_string_to_bool:
  "GetAttributeValue_bool (AV_string s) = Inr (s = ''true'' \<or> s = ''0'') \<and>
   GetAttributeValue_bool (AV_string ''0'') = Inr True \<and>
   GetAttributeValue_bool (AV_string ''1'') = Inr False"
  by simp

text \<open>
  C8 (a \<open>Name\<close> record for an id that is already defined redefines that entry and leaves
  the others intact): evaluated on the dictionary \<open>a, b, c\<close>. Storing at id 0 or at id 1
  takes the branch \<open>index + 1 < size\<close>, which cuts the vector down to \<open>index\<close> entries and
  then writes past its end; only the last id, 2, is redefined in place.
\<close>

theorem C8_store_truncates:
  "IdsLookup_store [''a'', ''b'', ''c''] 0 ''x'' = Inl UndefinedBehaviour \<and>
   IdsLookup_store [''a'', ''b'', ''c''] 1 ''x'' = Inl UndefinedBehaviour \<and>
   IdsLookup_store [''a'', ''b'', ''c''] 2 ''x'' = Inr [''a'', ''b'', ''x'']"
  by (simp add: IdsLookup_store_def Let_def)

lemma IdsLookup_store_next:
  "unat index = length mIds \<Longrightarrow> IdsLookup_store mIds index val = Inr (mIds @ [val])"
  by (simp add: IdsLookup_store_def)

section \<open>The project model (ProjectModel.h, ProjectModel.cpp)\<close>

datatype ProjectTreeNode =
  ProjectTreeNode (TagName: string) (Attributes: "Attribute list")
    (Children: "ProjectTreeNode list") (ParentIndex: nat) (Data: string)

text \<open>
  The domain objects live in four deques of the project, which never move their
  elements; a pointer to one of them is its index in its deque. A pointer to a node of
  the tree (\<^verbatim>\<open>mXMLNode\<close>) is the path of child indices from the root to the node, and
  \<open>None\<close> once the tree that held the node has been destroyed.
\<close>

type_synonym node_ptr = "nat list"

datatype DeserializedNodeStackElement =
    monostate
  | WaveBlock_ptr nat
  | Sequence_ptr nat
  | Clip_ptr nat
  | WaveTrack_ptr nat

text \<open>
  The two stacks of the parser. The head of a list is the \<^verbatim>\<open>back()\<close> of the vector.
  \<open>NodesStack\<close> holds the nodes that are open, the innermost first, each with the
  children it has got so far that are closed: a node is the last child of the node below
  it in the stack, and the model attaches it there when it is popped (\<open>attach_child\<close>)
  or when the tree is read (\<open>plug\<close>).
\<close>

record ParserState =
  NodesStack :: "ProjectTreeNode list"
  DeserializedNodeStack :: "DeserializedNodeStackElement list"

record WaveBlock =
  wb_mXMLNode :: "node_ptr option"
  wb_mParent :: nat
  wb_mParentIndex :: nat
  mStart :: "64 word"
  mBlockId :: "64 word"

record Sequence =
  sq_mXMLNode :: "node_ptr option"
  sq_mParent :: nat
  sq_mParentIndex :: nat
  mMaxSamples :: "64 word"
  mNumSamples :: "64 word"
  mFormat :: "32 word"
  mBlocks :: "nat list"

record Clip =
  cl_mXMLNode :: "node_ptr option"
  cl_mParent :: nat
  cl_mParentIndex :: nat
  cl_mName :: string
  cl_mOffset :: "64 word"
  mTrimLeft :: "64 word"
  mTrimRight :: "64 word"
  mSequences_of :: "nat list"

record WaveTrack =
  tr_mXMLNode :: "node_ptr option"
  tr_mParentIndex :: nat
  tr_mName :: string
  mSampleFormat :: "32 word"
  mRate :: "32 word"
  mChannel :: "32 word"
  mLinked :: bool
  mClips_of :: "nat list"

record AudacityProject =
  mProjectNode :: "ProjectTreeNode option"
  mReusableStringsCache :: "string list"
  mStringCache :: "string list"
  mWaveBlocks :: "WaveBlock list"
  mSequences :: "Sequence list"
  mClips :: "Clip list"
  mWaveTracks :: "WaveTrack list"
  mParserState :: "ParserState option"

definition isSilence :: "WaveBlock \<Rightarrow> bool" where
  "isSilence b \<longleftrightarrow> sint (mBlockId b) < 0"

text \<open>
  \<^verbatim>\<open>WaveBlock::getLength\<close>. The subtraction is that of \<^verbatim>\<open>int64_t\<close>, modelled with
  wrap-around.
\<close>

definition getLength :: "AudacityProject \<Rightarrow> WaveBlock \<Rightarrow> 64 word" where
  "getLength P b =
     (let parent = mSequences P ! wb_mParent b;
          blocksInSequence = length (mBlocks parent);
          nextBlock = wb_mParentIndex b + 1
      in if nextBlock < blocksInSequence
         then mStart (mWaveBlocks P ! (mBlocks parent ! nextBlock)) - mStart b
         else mNumSamples parent - mStart b)"

text \<open>
  What the constructor of \<open>WaveBlock\<close> establishes for the blocks of the sequence at
  index \<open>si\<close>: the \<open>i\<close>-th block of the sequence points back to the sequence and knows
  its position \<open>i\<close>.
\<close>

definition blocks_linked :: "AudacityProject \<Rightarrow> nat \<Rightarrow> bool" where
  "blocks_linked P si \<longleftrightarrow>
     list_all (\<lambda>i. wb_mParent (mWaveBlocks P ! (mBlocks (mSequences P ! si) ! i)) = si \<and>
                    wb_mParentIndex (mWaveBlocks P ! (mBlocks (mSequences P ! si) ! i)) = i)
       [0..<length (mBlocks (mSequences P ! si))]"

definition block_starts :: "AudacityProject \<Rightarrow> nat \<Rightarrow> 64 word list" where
  "block_starts P si = map (\<lambda>k. mStart (mWaveBlocks P ! k)) (mBlocks (mSequences P ! si))"

text \<open>The sum of the lengths of the blocks of the sequence at index \<open>si\<close>.\<close>

definition sum_lengths :: "AudacityProject \<Rightarrow> nat \<Rightarrow> 64 word" where
  "sum_lengths P si =
     sum_list (map (\<lambda>k. getLength P (mWaveBlocks P ! k)) (mBlocks (mSequences P ! si)))"

text \<open>
  The blocks tile \<open>[0, num_samples)\<close>: the first starts at 0, no block starts before the one
  ahead of it, and the last starts no later than \<open>num_samples\<close>, so that the windows
  \<open>[start\<^sub>i, start\<^sub>i + length\<^sub>i)\<close> follow one another from 0 to \<open>num_samples\<close>.
\<close>

definition tiles :: "AudacityProject \<Rightarrow> nat \<Rightarrow> bool" where
  "tiles P si \<longleftrightarrow>
     block_starts P si \<noteq> [] \<and>
     hd (block_starts P si) = 0 \<and>
     sorted (map sint (block_starts P si)) \<and>
     sint (last (block_starts P si)) \<le> sint (mNumSamples (mSequences P ! si))"

fun diffs :: "64 word list \<Rightarrow> 64 word \<Rightarrow> 64 word list" where
  "diffs [] e = []"
| "diffs [x] e = [e - x]"
| "diffs (x # y # ys) e = (y - x) # diffs (y # ys) e"

lemma sum_diffs: "xs \<noteq> [] \<Longrightarrow> sum_list (diffs xs e) = e - hd xs"
  by (induction xs e rule: diffs.induct) auto

lemma length_diffs: "length (diffs xs e) = length xs"
  by (induction xs e rule: diffs.induct) auto

lemma nth_diffs:
  "i < length xs \<Longrightarrow> diffs xs e ! i = (if Suc i < length xs then xs ! Suc i else e) - xs ! i"
proof (induction xs e arbitrary: i rule: diffs.induct)
  case (3 x y ys e)
  then show ?case by (cases i) auto
qed auto

lemma lengths_are_diffs:
  assumes "blocks_linked P si"
  shows "map (\<lambda>k. getLength P (mWaveBlocks P ! k)) (mBlocks (mSequences P ! si))
         = diffs (block_starts P si) (mNumSamples (mSequences P ! si))"
proof (rule nth_equalityI)
  show "length (map (\<lambda>k. getLength P (mWaveBlocks P ! k)) (mBlocks (mSequences P ! si)))
        = length (diffs (block_starts P si) (mNumSamples (mSequences P ! si)))"
    by (simp add: length_diffs block_starts_def)
next
  fix i assume "i < length (map (\<lambda>k. getLength P (mWaveBlocks P ! k)) (mBlocks (mSequences P ! si)))"
  then have i: "i < length (mBlocks (mSequences P ! si))" by simp
  from assms i have l: "wb_mParent (mWaveBlocks P ! (mBlocks (mSequences P ! si) ! i)) = si"
      "wb_mParentIndex (mWaveBlocks P ! (mBlocks (mSequences P ! si) ! i)) = i"
    by (auto simp: blocks_linked_def list_all_iff)
  show "map (\<lambda>k. getLength P (mWaveBlocks P ! k)) (mBlocks (mSequences P ! si)) ! i
        = diffs (block_starts P si) (mNumSamples (mSequences P ! si)) ! i"
    using i l by (simp add: nth_diffs block_starts_def getLength_def Let_def)
qed

text \<open>
  C5, as amended: the sum of the derived lengths of the blocks of a sequence telescopes.
  With no block it is 0; with a block it is \<open>num_samples - blocks[0].start\<close> (in 64-bit
  arithmetic), so it equals \<open>num_samples\<close> exactly when the first block starts at 0.
  Blocks that tile \<open>[0, num_samples)\<close> give \<open>num_samples\<close>; the converse does not hold.
\<close>

theorem C5_sum_telescopes:
  assumes "blocks_linked P si"
  shows "(mBlocks (mSequences P ! si) = [] \<longrightarrow> sum_lengths P si = 0) \<and>
         (mBlocks (mSequences P ! si) \<noteq> [] \<longrightarrow>
            sum_lengths P si = mNumSamples (mSequences P ! si) - hd (block_starts P si) \<and>
            (sum_lengths P si = mNumSamples (mSequences P ! si) \<longleftrightarrow> hd (block_starts P si) = 0)) \<and>
         (tiles P si \<longrightarrow> sum_lengths P si = mNumSamples (mSequences P ! si))"
proof -
  have e: "sum_lengths P si = 0" if "mBlocks (mSequences P ! si) = []"
    using that by (simp add: sum_lengths_def)
  have n: "sum_lengths P si = mNumSamples (mSequences P ! si) - hd (block_starts P si)"
    if "mBlocks (mSequences P ! si) \<noteq> []"
  proof -
    have ne: "block_starts P si \<noteq> []" using that by (simp add: block_starts_def)
    show ?thesis
      unfolding sum_lengths_def lengths_are_diffs[OF assms] by (rule sum_diffs[OF ne])
  qed
  have t: "sum_lengths P si = mNumSamples (mSequences P ! si)" if "tiles P si"
  proof -
    from that have "mBlocks (mSequences P ! si) \<noteq> []" "hd (block_starts P si) = 0"
      by (auto simp: tiles_def block_starts_def)
    with n show ?thesis by simp
  qed
  show ?thesis using e n t by auto
qed

definition C5_project :: AudacityProject where
  "C5_project =
     \<lparr>mProjectNode = None, mReusableStringsCache = [], mStringCache = [],
      mWaveBlocks =
        [\<lparr>wb_mXMLNode = Some [], wb_mParent = 0, wb_mParentIndex = 0, mStart = 0, mBlockId = 1\<rparr>,
         \<lparr>wb_mXMLNode = Some [], wb_mParent = 0, wb_mParentIndex = 1, mStart = 500, mBlockId = 2\<rparr>,
         \<lparr>wb_mXMLNode = Some [], wb_mParent = 0, wb_mParentIndex = 2, mStart = 200, mBlockId = 3\<rparr>],
      mSequences =
        [\<lparr>sq_mXMLNode = Some [], sq_mParent = 0, sq_mParentIndex = 0, mMaxSamples = 262144,
          mNumSamples = 1000, mFormat = 0x0004000F, mBlocks = [0, 1, 2]\<rparr>],
      mClips = [], mWaveTracks = [], mParserState = None\<rparr>"

lemma C5_project_linked: "blocks_linked C5_project 0"
  by (simp add: blocks_linked_def C5_project_def upt_rec)

text \<open>
  C5 as stated fails: the blocks of \<open>C5_project\<close> start at 0, 500 and 200 in a sequence of
  1000 samples. Their derived lengths are 500, -300 and 800, which sum to 1000, and they
  do not tile \<open>[0, 1000)\<close>.
\<close>

theorem C5_counterexample:
  "sum_lengths C5_project 0 = mNumSamples (mSequences C5_project ! 0) \<and> \<not> tiles C5_project 0"
  by (simp add: sum_lengths_def getLength_def C5_project_def tiles_def block_starts_def Let_def)

theorem C5_sum_telescopes_witness:
  "blocks_linked C5_project 0 \<and> mBlocks (mSequences C5_project ! 0) \<noteq> [] \<and>
   sum_lengths C5_project 0 = mNumSamples (mSequences C5_project ! 0) - hd (block_starts C5_project 0) \<and>
   hd (block_starts C5_project 0) = 0 \<and>
   sum_lengths C5_project 0 = mNumSamples (mSequences C5_project ! 0)"
proof -
  have ne: "mBlocks (mSequences C5_project ! 0) \<noteq> []" by (simp add: C5_project_def)
  have "hd (block_starts C5_project 0) = 0" by (simp add: block_starts_def C5_project_def)
  with C5_sum_telescopes[OF C5_project_linked] C5_project_linked ne show ?thesis by simp
qed

section \<open>The sample-block store\<close>

text \<open>
  The table \<open>sampleblocks\<close> as the project reads it: the rows that a
  \<^verbatim>\<open>SELECT ... WHERE blockid = ?1\<close> steps through, in order, or the exception of SQLite
  when the statement fails. Of a row, the model keeps the two columns the project reads.
\<close>

record sampleblock_row =
  sampleformat :: "32 word"
  samples :: "byte list"

type_synonym sampleblocks = "64 word \<Rightarrow> error + sampleblock_row list"

subsection \<open>validateBlocks\<close>

text \<open>The \<^verbatim>\<open>while (query.executeStep())\<close> loop of \<open>validateBlocks\<close>.\<close>

fun validate_rows :: "32 word \<Rightarrow> sampleblock_row list \<Rightarrow> nat \<Rightarrow> error + nat" where
  "validate_rows fmt [] rowsCount = Inr rowsCount"
| "validate_rows fmt (row # rows) rowsCount =
     (if fmt \<noteq> sampleformat row then Inl FormatMismatch
      else validate_rows fmt rows (rowsCount + 1))"

text \<open>The body of the \<^verbatim>\<open>try\<close> block: \<open>Inl\<close> is the exception the \<^verbatim>\<open>catch\<close> receives.\<close>

definition validate_try :: "AudacityProject \<Rightarrow> sampleblocks \<Rightarrow> WaveBlock \<Rightarrow> error + unit" where
  "validate_try P db block =
     (case db (mBlockId block) of
        Inl e \<Rightarrow> Inl e
      | Inr rows \<Rightarrow>
          (case validate_rows (mFormat (mSequences P ! wb_mParent block)) rows 0 of
             Inl e \<Rightarrow> Inl e
           | Inr rowsCount \<Rightarrow> if rowsCount = 0 then Inl BlockNotFound else Inr ()))"

fun validateBlocks_loop ::
  "AudacityProject \<Rightarrow> sampleblocks \<Rightarrow> WaveBlock list \<Rightarrow> 64 word set \<Rightarrow> 64 word set" where
  "validateBlocks_loop P db [] missingBlocks = missingBlocks"
| "validateBlocks_loop P db (block # blocks) missingBlocks =
     (if isSilence block then validateBlocks_loop P db blocks missingBlocks
      else if mBlockId block \<in> missingBlocks then validateBlocks_loop P db blocks missingBlocks
      else (case validate_try P db block of
              Inl ex \<Rightarrow> validateBlocks_loop P db blocks (insert (mBlockId block) missingBlocks)
            | Inr u \<Rightarrow> validateBlocks_loop P db blocks missingBlocks))"

definition validateBlocks :: "AudacityProject \<Rightarrow> sampleblocks \<Rightarrow> 64 word set" where
  "validateBlocks P db = validateBlocks_loop P db (mWaveBlocks P) {}"

text \<open>
  The claim's set: the ids of the non-silent blocks of the project that have no row in
  the store.
\<close>

definition absent_ids :: "AudacityProject \<Rightarrow> sampleblocks \<Rightarrow> 64 word set" where
  "absent_ids P db =
     {mBlockId b | b. b \<in> set (mWaveBlocks P) \<and> \<not> isSilence b \<and> db (mBlockId b) = Inr []}"

lemma validate_rows_Inr:
  "validate_rows fmt rows k = Inr n \<longleftrightarrow> n = k + length rows \<and> list_all (\<lambda>r. sampleformat r = fmt) rows"
proof (induction rows arbitrary: k)
  case Nil
  then show ?case by auto
next
  case (Cons row rows)
  show ?case
  proof (cases "fmt = sampleformat row")
    case True
    then show ?thesis using Cons.IH[of "k + 1"] by simp
  next
    case False
    then show ?thesis by auto
  qed
qed

lemma validate_try_fails:
  "isl (validate_try P db b) \<longleftrightarrow>
     (case db (mBlockId b) of
        Inl e \<Rightarrow> True
      | Inr rows \<Rightarrow> rows = [] \<or> (\<exists>r \<in> set rows. sampleformat r \<noteq> mFormat (mSequences P ! wb_mParent b)))"
proof (cases "db (mBlockId b)")
  case (Inl e)
  then show ?thesis by (simp add: validate_try_def)
next
  case (Inr rows)
  let ?fmt = "mFormat (mSequences P ! wb_mParent b)"
  show ?thesis
  proof (cases "validate_rows ?fmt rows 0")
    case (Inl e)
    have "\<not> list_all (\<lambda>r. sampleformat r = ?fmt) rows"
      using Inl validate_rows_Inr[of ?fmt rows 0 "length rows"] by simp
    then have "\<exists>r \<in> set rows. sampleformat r \<noteq> ?fmt"
      by (simp add: list_all_iff)
    then show ?thesis
      by (simp add: validate_try_def Inl Inr)
  next
    case r: (Inr n)
    have n: "n = length rows" and a: "list_all (\<lambda>r. sampleformat r = ?fmt) rows"
      using r validate_rows_Inr[of ?fmt rows 0 n] by simp_all
    have "\<not> (\<exists>r \<in> set rows. sampleformat r \<noteq> ?fmt)"
      using a by (simp add: list_all_iff)
    then show ?thesis
      by (simp add: validate_try_def r Inr n)
  qed
qed

lemma validateBlocks_loop_eq:
  "validateBlocks_loop P db blocks missing =
     missing \<union> mBlockId ` set (filter (\<lambda>b. \<not> isSilence b \<and> isl (validate_try P db b)) blocks)"
proof (induction blocks arbitrary: missing)
  case Nil
  then show ?case by simp
next
  case (Cons block blocks)
  show ?case
  proof (cases "validate_try P db block")
    case (Inl e)
    then show ?thesis by (simp add: Cons.IH insert_absorb)
  next
    case (Inr u)
    then show ?thesis by (simp add: Cons.IH)
  qed
qed

text \<open>
  C4, as amended: \<open>validateBlocks\<close> returns exactly the ids of the non-silent blocks of the
  project whose query fails, returns no row, or returns a row whose \<open>sampleformat\<close> is not
  the format of the sequence that owns the block.
\<close>

theorem C4_validateBlocks_set:
  "validateBlocks P db =
     {mBlockId b | b. b \<in> set (mWaveBlocks P) \<and> \<not> isSilence b \<and>
        (case db (mBlockId b) of
           Inl e \<Rightarrow> True
         | Inr rows \<Rightarrow> rows = [] \<or>
             (\<exists>r \<in> set rows. sampleformat r \<noteq> mFormat (mSequences P ! wb_mParent b)))}"
proof -
  have "validateBlocks P db =
      mBlockId ` {b \<in> set (mWaveBlocks P). \<not> isSilence b \<and> isl (validate_try P db b)}"
    by (simp add: validateBlocks_def validateBlocks_loop_eq)
  also have "\<dots> = {mBlockId b | b. b \<in> set (mWaveBlocks P) \<and> \<not> isSilence b \<and>
      isl (validate_try P db b)}"
    by blast
  finally show ?thesis
    by (simp only: validate_try_fails)
qed

definition C4_project :: AudacityProject where
  "C4_project =
     \<lparr>mProjectNode = None, mReusableStringsCache = [], mStringCache = [],
      mWaveBlocks =
        [\<lparr>wb_mXMLNode = Some [], wb_mParent = 0, wb_mParentIndex = 0, mStart = 0, mBlockId = 7\<rparr>],
      mSequences =
        [\<lparr>sq_mXMLNode = Some [], sq_mParent = 0, sq_mParentIndex = 0, mMaxSamples = 262144,
          mNumSamples = 1000, mFormat = Float32, mBlocks = [0]\<rparr>],
      mClips = [], mWaveTracks = [], mParserState = None\<rparr>"

definition C4_store :: sampleblocks where
  "C4_store blockid = (if blockid = 7 then Inr [\<lparr>sampleformat = Int16, samples = []\<rparr>] else Inr [])"

text \<open>
  C4 as stated fails: block 7 of \<open>C4_project\<close> belongs to a \<open>Float32\<close> sequence and has a row
  in \<open>C4_store\<close>, of format \<open>Int16\<close>. It is returned, although no referenced id is absent
  from the store.
\<close>

theorem C4_counterexample:
  "validateBlocks C4_project C4_store = {7} \<and> absent_ids C4_project C4_store = {} \<and>
   validateBlocks C4_project C4_store \<noteq> absent_ids C4_project C4_store"
proof -
  have 1: "validateBlocks C4_project C4_store = {7}"
    by (simp add: validateBlocks_def C4_project_def C4_store_def isSilence_def
        validate_try_def Float32_def Int16_def)
  have 2: "absent_ids C4_project C4_store = {}"
    by (simp add: absent_ids_def C4_project_def C4_store_def)
  show ?thesis using 1 2 by simp
qed

subsection \<open>extractClips\<close>

text \<open>A \<^verbatim>\<open>for\<close> loop whose body may throw: the first exception ends the loop.\<close>

fun fold_err :: "('a \<Rightarrow> 's \<Rightarrow> error + 's) \<Rightarrow> 'a list \<Rightarrow> 's \<Rightarrow> error + 's" where
  "fold_err f [] s = Inr s"
| "fold_err f (x # xs) s = (case f x s of Inl e \<Rightarrow> Inl e | Inr s' \<Rightarrow> fold_err f xs s')"

text \<open>
  The window of a block clamped to the window \<open>[firstSample, lastSample)\<close> of the clip:
  \<^verbatim>\<open>std::max\<close> and \<^verbatim>\<open>std::min\<close> on \<^verbatim>\<open>int64_t\<close>.
\<close>

definition clamped_start :: "WaveBlock \<Rightarrow> 64 word \<Rightarrow> 64 word" where
  "clamped_start block firstSample =
     (if sint (mStart block) < sint firstSample then firstSample else mStart block)"

definition clamped_end :: "AudacityProject \<Rightarrow> WaveBlock \<Rightarrow> 64 word \<Rightarrow> 64 word" where
  "clamped_end P block lastSample =
     (if sint lastSample < sint (mStart block + getLength P block) then lastSample
      else mStart block + getLength P block)"

definition effective_len :: "AudacityProject \<Rightarrow> WaveBlock \<Rightarrow> 64 word \<Rightarrow> 64 word \<Rightarrow> 64 word" where
  "effective_len P block firstSample lastSample =
     clamped_end P block lastSample - clamped_start block firstSample"

text \<open>The first test of the loop over the blocks: the block lies outside the window.\<close>

definition outside_window :: "AudacityProject \<Rightarrow> WaveBlock \<Rightarrow> 64 word \<Rightarrow> 64 word \<Rightarrow> bool" where
  "outside_window P block firstSample lastSample \<longleftrightarrow>
     sint (mStart block + getLength P block) \<le> sint firstSample \<or>
     sint (mStart block) \<ge> sint lastSample"

text \<open>
  The \<^verbatim>\<open>while (stmt.executeStep())\<close> loop over the rows of a block: \<open>needed\<close> is
  \<open>blockLength * bytesPerSample\<close> and \<open>off\<close> the offset of the window in the blob, in
  bytes. The test compares the size of the whole blob with \<open>needed\<close>; a blob that passes
  it and is shorter than \<open>off + needed\<close> is read past its end.
\<close>

fun extract_rows :: "sampleblock_row list \<Rightarrow> 64 word \<Rightarrow> nat \<Rightarrow> WaveFile \<Rightarrow> error + WaveFile" where
  "extract_rows [] needed off w = Inr w"
| "extract_rows (row # rows) needed off w =
     (if sint (of_nat (length (samples row)) :: 64 word) < sint needed then Inl UnexpectedBlobSize
      else if length (samples row) < off + unat needed then Inl UndefinedBehaviour
      else (case writeBlock w (take (unat needed) (drop off (samples row))) 0 of
              Inl e \<Rightarrow> Inl e
            | Inr w' \<Rightarrow> extract_rows rows needed off w'))"

text \<open>
  The body of the loop over the blocks. \<open>silence\<close> is the vector of zero bytes and
  \<open>cap\<close> its capacity: with capacity 0 its \<^verbatim>\<open>data()\<close> is null and \<open>Buffer::append\<close>
  does nothing.
\<close>

definition extract_block ::
  "sampleblocks \<Rightarrow> AudacityProject \<Rightarrow> nat \<Rightarrow> 64 word \<Rightarrow> 64 word \<Rightarrow> byte list \<Rightarrow> nat \<Rightarrow>
   WaveBlock \<Rightarrow> WaveFile \<Rightarrow> error + WaveFile" where
  "extract_block db P bytesPerSample firstSample lastSample silence cap block w =
     (if outside_window P block firstSample lastSample then Inr w
      else
        let blockStart = clamped_start block firstSample;
            blockLength = effective_len P block firstSample lastSample
        in if sint blockLength \<le> 0 then Inr w
           else
             let blockId = mBlockId block;
                 needed = blockLength * of_nat bytesPerSample
             in if sint blockId < 0
                then (if cap = 0 then Inr w
                      else if unat needed \<le> length silence
                      then writeBlock w (take (unat needed) silence) 0
                      else Inl UndefinedBehaviour)
                else (case db blockId of
                        Inl e \<Rightarrow> Inl e
                      | Inr rows \<Rightarrow>
                          extract_rows rows needed
                            (unat ((blockStart - mStart block) * of_nat bytesPerSample)) w))"

text \<open>
  \<^verbatim>\<open>silence.resize(sequence->getMaxSamples() * bytesPerSample)\<close>: \<open>getMaxSamples\<close> returns
  \<^verbatim>\<open>int32_t\<close>, the product is an \<^verbatim>\<open>int\<close>; a negative product becomes a size that
  \<^verbatim>\<open>resize\<close> refuses.
\<close>

definition silence_size :: "Sequence \<Rightarrow> nat \<Rightarrow> error + nat" where
  "silence_size sequence bytesPerSample =
     (let m = sint (ucast (mMaxSamples sequence) :: 32 word) * int bytesPerSample
      in if 2 ^ 31 \<le> m \<or> m < - (2 ^ 31) then Inl UndefinedBehaviour
         else if m < 0 then Inl length_error
         else Inr (nat m))"

text \<open>
  The body of the loop over the sequences of a clip. \<open>llrint_mul t r\<close> stands for
  \<^verbatim>\<open>llrint(t * r)\<close> on the \<^verbatim>\<open>double\<close> \<open>t\<close> and the \<^verbatim>\<open>int\<close> \<open>r\<close>: floating-point
  arithmetic is a parameter of the model.
\<close>

definition extract_sequence ::
  "sampleblocks \<Rightarrow> AudacityProject \<Rightarrow> (64 word \<Rightarrow> 32 word \<Rightarrow> 64 word) \<Rightarrow> nat \<Rightarrow> Clip \<Rightarrow> WaveTrack \<Rightarrow>
   nat \<Rightarrow> byte list \<times> nat \<times> WaveFile \<Rightarrow> error + byte list \<times> nat \<times> WaveFile" where
  "extract_sequence db P llrint_mul bytesPerSample clip track si st =
     (let sequence = mSequences P ! si in
      case silence_size sequence bytesPerSample of
        Inl e \<Rightarrow> Inl e
      | Inr sz \<Rightarrow>
          let silence = replicate sz zero_byte;
              cap = max (fst (snd st)) sz;
              firstSample = llrint_mul (mTrimLeft clip) (mRate track);
              lastSample = scast (ucast (mNumSamples sequence) :: 32 word)
                             - llrint_mul (mTrimRight clip) (mRate track)
          in (case fold_err (extract_block db P bytesPerSample firstSample lastSample silence cap)
                     (map (\<lambda>k. mWaveBlocks P ! k) (mBlocks sequence)) (snd (snd st)) of
                Inl e \<Rightarrow> Inl e
              | Inr w \<Rightarrow> Inr (silence, cap, w)))"

text \<open>The body of the loop over the clips: the file written for the clip.\<close>

definition extract_clip ::
  "sampleblocks \<Rightarrow> AudacityProject \<Rightarrow> (64 word \<Rightarrow> 32 word \<Rightarrow> 64 word) \<Rightarrow> Clip \<Rightarrow>
   error + Header \<times> byte list" where
  "extract_clip db P llrint_mul clip =
     (let track = mWaveTracks P ! cl_mParent clip;
          format = mSampleFormat track
      in case BytesPerSample format of
           Inl e \<Rightarrow> Inl e
         | Inr bytesPerSample \<Rightarrow>
             (case fold_err (extract_sequence db P llrint_mul bytesPerSample clip track)
                     (mSequences_of clip) ([], 0, new_WaveFile format (mRate track) 1) of
                Inl e \<Rightarrow> Inl e
              | Inr st \<Rightarrow> writeFile (snd (snd st))))"

text \<open>\<open>extractClips\<close>: the files written, one for each clip, or the exception that leaves it.\<close>

definition extractClips ::
  "sampleblocks \<Rightarrow> AudacityProject \<Rightarrow> (64 word \<Rightarrow> 32 word \<Rightarrow> 64 word) \<Rightarrow>
   error + (Header \<times> byte list) list" where
  "extractClips db P llrint_mul =
     fold_err (\<lambda>clip files. case extract_clip db P llrint_mul clip of
                                Inl e \<Rightarrow> Inl e
                              | Inr file \<Rightarrow> Inr (files @ [file]))
       (mClips P) []"


lemma fold_err_append:
  "fold_err f (xs @ ys) s = (case fold_err f xs s of Inl e \<Rightarrow> Inl e | Inr s' \<Rightarrow> fold_err f ys s')"
  by (induction xs arbitrary: s) (auto split: sum.splits)

lemma fold_err_stops:
  "fold_err f xs s = Inr s' \<Longrightarrow> f x s' = Inl e \<Longrightarrow> fold_err f (xs @ x # ys) s = Inl e"
  by (simp add: fold_err_append)

lemma writeBlock_channels:
  "writeBlock w bytes c = Inr w' \<Longrightarrow> length (mChannels w') = length (mChannels w)"
  by (auto simp: writeBlock_def split: if_splits)

text \<open>A row is too short for the test of \<open>extract_rows\<close>; a row holds the window.\<close>

definition blob_short :: "64 word \<Rightarrow> sampleblock_row \<Rightarrow> bool" where
  "blob_short needed row \<longleftrightarrow> sint (of_nat (length (samples row)) :: 64 word) < sint needed"

definition blob_holds :: "64 word \<Rightarrow> nat \<Rightarrow> sampleblock_row \<Rightarrow> bool" where
  "blob_holds needed off row \<longleftrightarrow> \<not> blob_short needed row \<and> off + unat needed \<le> length (samples row)"

lemma extract_rows_raises:
  "mChannels w \<noteq> [] \<Longrightarrow>
   extract_rows rows needed off w = Inl UnexpectedBlobSize \<longleftrightarrow>
     (\<exists>i < length rows. blob_short needed (rows ! i) \<and> list_all (blob_holds needed off) (take i rows))"
proof (induction rows arbitrary: w)
  case Nil
  then show ?case by simp
next
  case (Cons row rows)
  show ?case
  proof (cases "blob_short needed row")
    case True
    then have "extract_rows (row # rows) needed off w = Inl UnexpectedBlobSize"
      by (simp add: blob_short_def)
    moreover have "\<exists>i < length (row # rows). blob_short needed ((row # rows) ! i) \<and>
        list_all (blob_holds needed off) (take i (row # rows))"
      using True by (intro exI[of _ 0]) simp
    ultimately show ?thesis by simp
  next
    case ns: False
    show ?thesis
    proof (cases "length (samples row) < off + unat needed")
      case True
      then have nh: "\<not> blob_holds needed off row" by (simp add: blob_holds_def)
      have l: "extract_rows (row # rows) needed off w = Inl UndefinedBehaviour"
        using ns True by (simp add: blob_short_def)
      have "\<not> (\<exists>i < length (row # rows). blob_short needed ((row # rows) ! i) \<and>
        list_all (blob_holds needed off) (take i (row # rows)))"
      proof
        assume "\<exists>i < length (row # rows). blob_short needed ((row # rows) ! i) \<and>
          list_all (blob_holds needed off) (take i (row # rows))"
        then obtain i where i: "i < length (row # rows)" "blob_short needed ((row # rows) ! i)"
          "list_all (blob_holds needed off) (take i (row # rows))" by blast
        show False
        proof (cases i)
          case 0
          with i ns show False by simp
        next
          case (Suc j)
          with i nh show False by simp
        qed
      qed
      with l show ?thesis by simp
    next
      case False
      then have h: "blob_holds needed off row" using ns by (simp add: blob_holds_def)
      obtain w' where w': "writeBlock w (take (unat needed) (drop off (samples row))) 0 = Inr w'"
        using Cons.prems by (auto simp: writeBlock_def)
      have ne: "mChannels w' \<noteq> []"
        using writeBlock_channels[OF w'] Cons.prems by auto
      have l: "extract_rows (row # rows) needed off w = extract_rows rows needed off w'"
        using ns False w' by (simp add: blob_short_def)
      have "(\<exists>i < length (row # rows). blob_short needed ((row # rows) ! i) \<and>
          list_all (blob_holds needed off) (take i (row # rows))) \<longleftrightarrow>
        (\<exists>i < length rows. blob_short needed (rows ! i) \<and>
          list_all (blob_holds needed off) (take i rows))" (is "?L \<longleftrightarrow> ?R")
      proof
        assume ?L
        then obtain i where i: "i < length (row # rows)" "blob_short needed ((row # rows) ! i)"
          "list_all (blob_holds needed off) (take i (row # rows))" by blast
        show ?R
        proof (cases i)
          case 0
          with i ns show ?thesis by simp
        next
          case (Suc j)
          with i show ?thesis by (intro exI[of _ j]) simp
        qed
      next
        assume ?R
        then obtain j where j: "j < length rows" "blob_short needed (rows ! j)"
          "list_all (blob_holds needed off) (take j rows)" by blast
        then show ?L using h by (intro exI[of _ "Suc j"]) simp
      qed
      with l Cons.IH[OF ne] show ?thesis by simp
    qed
  qed
qed


lemma extract_block_rows:
  assumes "\<not> outside_window P block firstSample lastSample"
    and "0 < sint (effective_len P block firstSample lastSample)"
    and "\<not> isSilence block"
    and "db (mBlockId block) = Inr rows"
  shows "extract_block db P bytesPerSample firstSample lastSample silence cap block w =
     extract_rows rows (effective_len P block firstSample lastSample * of_nat bytesPerSample)
       (unat ((clamped_start block firstSample - mStart block) * of_nat bytesPerSample)) w"
  using assms by (simp add: extract_block_def Let_def isSilence_def)

lemma extract_sequence_raises:
  assumes "silence_size (mSequences P ! si) bytesPerSample = Inr sz"
    and "fold_err (extract_block db P bytesPerSample (llrint_mul (mTrimLeft clip) (mRate track))
           (scast (ucast (mNumSamples (mSequences P ! si)) :: 32 word)
              - llrint_mul (mTrimRight clip) (mRate track))
           (replicate sz zero_byte) (max cap sz))
         (map (\<lambda>k. mWaveBlocks P ! k) (mBlocks (mSequences P ! si))) w = Inl e"
  shows "extract_sequence db P llrint_mul bytesPerSample clip track si (silence, cap, w) = Inl e"
  using assms by (simp add: extract_sequence_def Let_def)

lemma extract_clip_raises:
  assumes "BytesPerSample (mSampleFormat (mWaveTracks P ! cl_mParent clip)) = Inr bytesPerSample"
    and "fold_err (extract_sequence db P llrint_mul bytesPerSample clip (mWaveTracks P ! cl_mParent clip))
           (mSequences_of clip)
           ([], 0, new_WaveFile (mSampleFormat (mWaveTracks P ! cl_mParent clip))
                     (mRate (mWaveTracks P ! cl_mParent clip)) 1) = Inl e"
  shows "extract_clip db P llrint_mul clip = Inl e"
  using assms by (simp add: extract_clip_def Let_def)

lemma extractClips_raises:
  assumes "mClips P = cs1 @ clip # cs2"
    and "list_all (\<lambda>c. \<not> isl (extract_clip db P llrint_mul c)) cs1"
    and "extract_clip db P llrint_mul clip = Inl e"
  shows "extractClips db P llrint_mul = Inl e"
proof -
  let ?f = "\<lambda>clip files. case extract_clip db P llrint_mul clip of
                                Inl e \<Rightarrow> Inl e
                              | Inr file \<Rightarrow> Inr (files @ [file])"
  have "\<exists>files'. fold_err ?f cs files = Inr files'"
    if "list_all (\<lambda>c. \<not> isl (extract_clip db P llrint_mul c)) cs" for cs files
    using that
  proof (induction cs arbitrary: files)
    case Nil
    then show ?case by simp
  next
    case (Cons c cs)
    then obtain wav where "extract_clip db P llrint_mul c = Inr wav"
      by (cases "extract_clip db P llrint_mul c") auto
    with Cons show ?case by simp
  qed
  then obtain files' where "fold_err ?f cs1 [] = Inr files'"
    using assms(2) by blast
  then show ?thesis
    using assms(1,3) by (simp add: extractClips_def fold_err_append)
qed


definition C2_project :: "32 word \<Rightarrow> AudacityProject" where
  "C2_project fmt =
     \<lparr>mProjectNode = None, mReusableStringsCache = [], mStringCache = [],
      mWaveBlocks =
        [\<lparr>wb_mXMLNode = Some [], wb_mParent = 0, wb_mParentIndex = 0, mStart = 0, mBlockId = 7\<rparr>],
      mSequences =
        [\<lparr>sq_mXMLNode = Some [], sq_mParent = 0, sq_mParentIndex = 0, mMaxSamples = 262144,
          mNumSamples = 1, mFormat = fmt, mBlocks = [0]\<rparr>],
      mClips =
        [\<lparr>cl_mXMLNode = Some [], cl_mParent = 0, cl_mParentIndex = 0, cl_mName = ''clip'',
          cl_mOffset = 0, mTrimLeft = 0, mTrimRight = 0, mSequences_of = [0]\<rparr>],
      mWaveTracks =
        [\<lparr>tr_mXMLNode = Some [], tr_mParentIndex = 0, tr_mName = ''track'', mSampleFormat = fmt,
          mRate = 44100, mChannel = 0, mLinked = False, mClips_of = [0]\<rparr>],
      mParserState = None\<rparr>"

definition C2_block :: WaveBlock where
  "C2_block = \<lparr>wb_mXMLNode = Some [], wb_mParent = 0, wb_mParentIndex = 0, mStart = 0, mBlockId = 7\<rparr>"

definition C2_row :: sampleblock_row where
  "C2_row = \<lparr>sampleformat = Int24, samples = [CHR 0x01, CHR 0x02, CHR 0x03]\<rparr>"

definition C2_store :: sampleblocks where
  "C2_store blockid = (if blockid = 7 then Inr [C2_row] else Inr [])"

text \<open>With both trims 0.0 (all bits zero), \<^verbatim>\<open>llrint(t * r)\<close> is 0.\<close>

definition C2_llrint_mul :: "64 word \<Rightarrow> 32 word \<Rightarrow> 64 word" where
  "C2_llrint_mul t r = 0"

lemma C2_window:
  "\<not> outside_window (C2_project fmt) C2_block 0 1"
  "effective_len (C2_project fmt) C2_block 0 1 = 1"
  "clamped_start C2_block 0 = 0"
  "\<not> isSilence C2_block"
  "C2_store (mBlockId C2_block) = Inr [C2_row]"
  by (simp_all add: outside_window_def effective_len_def clamped_start_def clamped_end_def
      getLength_def C2_project_def C2_block_def isSilence_def C2_store_def Let_def)

lemma C2_block_Int24:
  "extract_block C2_store (C2_project Int24) 3 0 1 sil cap C2_block (new_WaveFile Int24 44100 1)
   = writeBlock (new_WaveFile Int24 44100 1) [CHR 0x01, CHR 0x02, CHR 0x03] 0"
proof -
  have "extract_block C2_store (C2_project Int24) 3 0 1 sil cap C2_block (new_WaveFile Int24 44100 1)
      = extract_rows [C2_row] (1 * of_nat 3) (unat ((0 - mStart C2_block) * of_nat 3 :: 64 word))
          (new_WaveFile Int24 44100 1)"
    using extract_block_rows[where P = "C2_project Int24" and block = C2_block and firstSample = 0
        and lastSample = 1 and db = C2_store and rows = "[C2_row]" and bytesPerSample = 3]
      C2_window(1,2)[of Int24] C2_window(3-5)
    by simp
  also have "\<dots> = writeBlock (new_WaveFile Int24 44100 1) [CHR 0x01, CHR 0x02, CHR 0x03] 0"
    by (simp add: C2_row_def C2_block_def writeBlock_def new_WaveFile_def split: sum.splits)
  finally show ?thesis .
qed

lemma C2_block_Float32:
  "extract_block C2_store (C2_project Float32) 4 0 1 sil cap C2_block w = Inl UnexpectedBlobSize"
proof -
  have "extract_block C2_store (C2_project Float32) 4 0 1 sil cap C2_block w
      = extract_rows [C2_row] (1 * of_nat 4) (unat ((0 - mStart C2_block) * of_nat 4 :: 64 word)) w"
    using extract_block_rows[where P = "C2_project Float32" and block = C2_block and firstSample = 0
        and lastSample = 1 and db = C2_store and rows = "[C2_row]" and bytesPerSample = 4]
      C2_window(1,2)[of Float32] C2_window(3-5)
    by simp
  also have "\<dots> = Inl UnexpectedBlobSize"
    by (simp add: C2_row_def)
  finally show ?thesis .
qed

lemma C2_extractClips_Float32:
  "extractClips C2_store (C2_project Float32) C2_llrint_mul = Inl UnexpectedBlobSize"
proof -
  let ?P = "C2_project Float32"
  have blk: "mWaveBlocks ?P ! 0 = C2_block" by (simp add: C2_project_def C2_block_def)
  have sq: "mBlocks (mSequences ?P ! 0) = [0]" "mNumSamples (mSequences ?P ! 0) = 1"
    "silence_size (mSequences ?P ! 0) 4 = Inr 1048576"
    by (simp_all add: C2_project_def silence_size_def Let_def)
  have s: "extract_sequence C2_store ?P C2_llrint_mul 4 c t 0 (sil, cap, w) = Inl UnexpectedBlobSize"
    for c t sil cap w
    by (rule extract_sequence_raises[where sz = 1048576])
       (simp_all add: sq blk C2_llrint_mul_def C2_block_Float32)
  have c: "extract_clip C2_store ?P C2_llrint_mul (mClips ?P ! 0) = Inl UnexpectedBlobSize"
    by (rule extract_clip_raises[where bytesPerSample = 4])
       (simp_all add: C2_project_def BytesPerSample_def Float32_def Int16_def Int24_def s[unfolded C2_project_def Float32_def])
  have "mClips ?P = [] @ (mClips ?P ! 0) # []" by (simp add: C2_project_def)
  from extractClips_raises[OF this _ c] show ?thesis by simp
qed


lemma writeFile_isl:
  "isl (writeFile w) \<longleftrightarrow> isl (BytesPerSample (mFmt w)) \<or> mChannels w = []"
  by (auto simp: writeFile_def Let_def split: sum.splits list.splits)

lemma C2_extractClips_Int24:
  "\<not> isl (extractClips C2_store (C2_project Int24) C2_llrint_mul)"
proof -
  let ?P = "C2_project Int24"
  let ?w0 = "new_WaveFile Int24 44100 1"
  have blk: "mWaveBlocks ?P ! 0 = C2_block" by (simp add: C2_project_def C2_block_def)
  have sq: "mBlocks (mSequences ?P ! 0) = [0]" "mNumSamples (mSequences ?P ! 0) = 1"
    "silence_size (mSequences ?P ! 0) 3 = Inr 786432"
    by (simp_all add: C2_project_def silence_size_def Let_def)
  obtain w1 where w1: "writeBlock ?w0 [CHR 0x01, CHR 0x02, CHR 0x03] 0 = Inr w1"
    and w1': "mFmt w1 = Int24" "mChannels w1 \<noteq> []"
    by (simp add: writeBlock_def new_WaveFile_def)
  have s: "extract_sequence C2_store ?P C2_llrint_mul 3 c t 0 ([], 0, ?w0)
      = Inr (replicate 786432 zero_byte, 786432, w1)" for c t
    by (simp add: extract_sequence_def Let_def sq blk C2_llrint_mul_def C2_block_Int24 w1)
  have tr: "mSampleFormat (mWaveTracks ?P ! cl_mParent (mClips ?P ! 0)) = Int24"
    "mRate (mWaveTracks ?P ! cl_mParent (mClips ?P ! 0)) = 44100"
    "mSequences_of (mClips ?P ! 0) = [0]" "mClips ?P = [mClips ?P ! 0]"
    by (simp_all add: C2_project_def)
  have b: "BytesPerSample Int24 = Inr 3"
    by (simp add: BytesPerSample_def Int16_def Int24_def)
  have c: "extract_clip C2_store ?P C2_llrint_mul (mClips ?P ! 0) = writeFile w1"
    by (simp add: extract_clip_def Let_def tr(1-3) b s)
  have "\<not> isl (writeFile w1)"
    by (simp add: writeFile_isl w1' b)
  then obtain wav where "writeFile w1 = Inr wav" by (cases "writeFile w1") auto
  then have "extractClips C2_store ?P C2_llrint_mul = Inr [wav]"
    unfolding extractClips_def by (subst tr(4)) (simp add: c)
  then show ?thesis by simp
qed

text \<open>
  The blob of the row holds fewer than \<open>needed\<close> bytes measured from \<open>off\<close>, the offset in
  bytes of the window in the block.
\<close>

definition blob_truncated :: "64 word \<Rightarrow> nat \<Rightarrow> sampleblock_row \<Rightarrow> bool" where
  "blob_truncated needed off row \<longleftrightarrow> length (samples row) < off + unat needed"

lemma sint_of_nat_small: "n < 2 ^ 63 \<Longrightarrow> sint (of_nat n :: 64 word) = int n"
  by (simp add: signed_of_nat signed_take_bit_int_eq_self)

lemma sint_nonneg_unat: "0 \<le> sint (w :: 64 word) \<Longrightarrow> sint w = int (unat w)"
proof -
  assume a: "0 \<le> sint w"
  have s: "sint w = signed_take_bit 63 (uint w)" by (simp add: sint_uint)
  have u: "0 \<le> uint w" by simp
  show ?thesis
  proof (cases "uint w < 2 ^ 63")
    case True
    have "(- (2 ^ 63) :: int) \<le> 0" by simp
    from this u have lo: "- (2 ^ 63) \<le> uint w" by (rule order_trans)
    have "signed_take_bit 63 (uint w) = uint w"
      by (rule signed_take_bit_int_eq_self[OF lo True])
    with s have "sint w = uint w" by simp
    then show ?thesis by (simp only: uint_nat)
  next
    case False
    then have "signed_take_bit 63 (uint w) \<le> uint w - 2 ^ Suc 63"
      by (intro signed_take_bit_int_less_eq) simp
    moreover have "uint w < 2 ^ 64" using uint_bounded[of w] by simp
    ultimately show ?thesis using a s by simp
  qed
qed

lemma blob_short_iff:
  assumes "length (samples row) < 2 ^ 63" "0 \<le> sint needed"
  shows "blob_short needed row \<longleftrightarrow> length (samples row) < unat needed"
proof -
  have "sint (of_nat (length (samples row)) :: 64 word) = int (length (samples row))"
    using assms(1) by (rule sint_of_nat_small)
  moreover have "sint needed = int (unat needed)"
    using assms(2) by (rule sint_nonneg_unat)
  ultimately show ?thesis
    by (simp only: blob_short_def of_nat_less_iff)
qed

lemma first_truncated:
  "\<exists>row \<in> set rows. Q row \<Longrightarrow>
   \<exists>i < length rows. Q (rows ! i) \<and> list_all (\<lambda>r. \<not> Q r) (take i rows)"
proof (induction rows)
  case Nil
  then show ?case by simp
next
  case (Cons r rows)
  show ?case
  proof (cases "Q r")
    case True
    then show ?thesis by (intro exI[of _ 0]) simp
  next
    case False
    then have "\<exists>row \<in> set rows. Q row" using Cons.prems by auto
    from Cons.IH[OF this] obtain i where
      "i < length rows" "Q (rows ! i)" "list_all (\<lambda>r. \<not> Q r) (take i rows)" by blast
    then show ?thesis using False by (intro exI[of _ "Suc i"]) simp
  qed
qed

lemma extract_rows_truncated:
  assumes ch: "mChannels w \<noteq> []"
    and sz: "\<forall>row \<in> set rows. length (samples row) < 2 ^ 63"
    and nn: "0 \<le> sint needed"
    and inside: "\<forall>row \<in> set rows. unat needed \<le> length (samples row) \<longrightarrow>
                   off + unat needed \<le> length (samples row)"
  shows "extract_rows rows needed off w = Inl UnexpectedBlobSize \<longleftrightarrow>
         (\<exists>row \<in> set rows. blob_truncated needed off row)"
proof -
  have sh: "blob_short needed row \<longleftrightarrow> blob_truncated needed off row" if "row \<in> set rows" for row
    using that sz nn inside by (auto simp: blob_short_iff blob_truncated_def)
  have ho: "blob_holds needed off row \<longleftrightarrow> \<not> blob_truncated needed off row"
    if "row \<in> set rows" for row
    using sh[OF that] by (auto simp: blob_holds_def blob_truncated_def)
  have "(\<exists>i < length rows. blob_short needed (rows ! i) \<and>
           list_all (blob_holds needed off) (take i rows)) \<longleftrightarrow>
        (\<exists>row \<in> set rows. blob_truncated needed off row)" (is "?L \<longleftrightarrow> ?R")
  proof
    assume ?L
    then obtain i where "i < length rows" "blob_short needed (rows ! i)" by blast
    then show ?R using sh[of "rows ! i"] by auto
  next
    assume ?R
    from first_truncated[OF this] obtain i where i: "i < length rows"
      "blob_truncated needed off (rows ! i)"
      "list_all (\<lambda>r. \<not> blob_truncated needed off r) (take i rows)" by blast
    have "list_all (blob_holds needed off) (take i rows)"
      using i(3) ho by (auto simp: list_all_iff dest: in_set_takeD)
    then show ?L using i sh[of "rows ! i"] by auto
  qed
  then show ?thesis using extract_rows_raises[OF ch, of rows needed off] by simp
qed


definition C2_trimmed_project :: AudacityProject where
  "C2_trimmed_project =
     \<lparr>mProjectNode = None, mReusableStringsCache = [], mStringCache = [],
      mWaveBlocks =
        [\<lparr>wb_mXMLNode = Some [], wb_mParent = 0, wb_mParentIndex = 0, mStart = 0, mBlockId = 7\<rparr>],
      mSequences =
        [\<lparr>sq_mXMLNode = Some [], sq_mParent = 0, sq_mParentIndex = 0, mMaxSamples = 262144,
          mNumSamples = 2, mFormat = Int16, mBlocks = [0]\<rparr>],
      mClips =
        [\<lparr>cl_mXMLNode = Some [], cl_mParent = 0, cl_mParentIndex = 0, cl_mName = ''clip'',
          cl_mOffset = 0, mTrimLeft = 0, mTrimRight = 0, mSequences_of = [0]\<rparr>],
      mWaveTracks =
        [\<lparr>tr_mXMLNode = Some [], tr_mParentIndex = 0, tr_mName = ''track'', mSampleFormat = Int16,
          mRate = 1, mChannel = 0, mLinked = False, mClips_of = [0]\<rparr>],
      mParserState = None\<rparr>"

definition C2_whole_row :: sampleblock_row where
  "C2_whole_row = \<lparr>sampleformat = Int16, samples = [CHR 0x01, CHR 0x02, CHR 0x03, CHR 0x04]\<rparr>"

definition C2_short_row :: sampleblock_row where
  "C2_short_row = \<lparr>sampleformat = Int16, samples = [CHR 0x01]\<rparr>"

definition C2_half_row :: sampleblock_row where
  "C2_half_row = \<lparr>sampleformat = Int16, samples = [CHR 0x01, CHR 0x02]\<rparr>"

definition C2_trimmed_store :: sampleblocks where
  "C2_trimmed_store blockid = (if blockid = 7 then Inr [C2_whole_row, C2_short_row] else Inr [])"

definition C2_half_store :: sampleblocks where
  "C2_half_store blockid = (if blockid = 7 then Inr [C2_half_row] else Inr [])"

lemma C2_trimmed_window:
  "\<not> outside_window C2_trimmed_project C2_block 1 2"
  "effective_len C2_trimmed_project C2_block 1 2 = 1"
  "clamped_start C2_block 1 = 1"
  "mStart C2_block = 0"
  by (simp_all add: outside_window_def effective_len_def clamped_start_def clamped_end_def
      getLength_def C2_trimmed_project_def C2_block_def Let_def)

text \<open>
  The window of the clip begins one sample into the block, which has two samples of two
  bytes: the window is the second sample, at the offset 2 of the blob. A blob of two bytes
  passes the test \<^verbatim>\<open>blobSize < blockLength * bytesPerSample\<close> and is read from its end on.
\<close>

lemma extract_block_reads_past_blob:
  "extract_block C2_half_store C2_trimmed_project 2 1 2 sil cap C2_block w = Inl UndefinedBehaviour"
proof -
  have st: "C2_half_store (mBlockId C2_block) = Inr [C2_half_row]"
    by (simp add: C2_half_store_def C2_block_def)
  have len: "0 < sint (effective_len C2_trimmed_project C2_block 1 2)"
    by (simp add: C2_trimmed_window)
  have "extract_block C2_half_store C2_trimmed_project 2 1 2 sil cap C2_block w
      = extract_rows [C2_half_row] (1 * of_nat 2) (unat ((1 - 0) * of_nat 2 :: 64 word)) w"
    using extract_block_rows[where db = C2_half_store and bytesPerSample = 2,
        OF C2_trimmed_window(1) len C2_window(4) st]
    by (simp add: C2_trimmed_window)
  also have "\<dots> = Inl UndefinedBehaviour"
    by (simp add: C2_half_row_def)
  finally show ?thesis .
qed

text \<open>
  C2, as amended. For a non-silent block whose clamped window is not empty and whose
  query returns rows, none of which passes the test of the code and yet ends before the
  end of the window, \<open>extract_block\<close> raises the blob-size error exactly when the blob of
  some row holds fewer than \<open>effective_len * BytesPerSample\<close> bytes measured from the offset
  of the window in the block; it counts \<open>BytesPerSample\<close> (3 for \<open>Int24\<close>) bytes a sample.
  No loop of \<open>extractClips\<close> catches an exception: the error of a block ends the loop over
  the blocks, the sequence, the loop over the sequences, the clip and \<open>extractClips\<close>.
\<close>

theorem C2_truncated_blob_error:
  assumes "\<not> outside_window P block firstSample lastSample"
    and "0 < sint (effective_len P block firstSample lastSample)"
    and "\<not> isSilence block"
    and "db (mBlockId block) = Inr rows"
    and "mChannels w \<noteq> []"
    and "needed = effective_len P block firstSample lastSample * of_nat bytesPerSample"
    and "off = unat ((clamped_start block firstSample - mStart block) * of_nat bytesPerSample)"
    and "0 \<le> sint needed"
    and "\<forall>row \<in> set rows. length (samples row) < 2 ^ 63"
    and "\<forall>row \<in> set rows. unat needed \<le> length (samples row) \<longrightarrow>
           off + unat needed \<le> length (samples row)"
  shows
    "(extract_block db P bytesPerSample firstSample lastSample silence cap block w = Inl UnexpectedBlobSize
        \<longleftrightarrow> (\<exists>row \<in> set rows. blob_truncated needed off row)) \<and>
     (\<forall>blocks1 blocks2 w0 e.
        fold_err (extract_block db P bytesPerSample firstSample lastSample silence cap) blocks1 w0 = Inr w \<and>
        extract_block db P bytesPerSample firstSample lastSample silence cap block w = Inl e \<longrightarrow>
        fold_err (extract_block db P bytesPerSample firstSample lastSample silence cap)
          (blocks1 @ block # blocks2) w0 = Inl e) \<and>
     (\<forall>llrint_mul clip track si sz sil c w0 e.
        silence_size (mSequences P ! si) bytesPerSample = Inr sz \<and>
        fold_err (extract_block db P bytesPerSample (llrint_mul (mTrimLeft clip) (mRate track))
           (scast (ucast (mNumSamples (mSequences P ! si)) :: 32 word)
              - llrint_mul (mTrimRight clip) (mRate track))
           (replicate sz zero_byte) (max c sz))
         (map (\<lambda>k. mWaveBlocks P ! k) (mBlocks (mSequences P ! si))) w0 = Inl e \<longrightarrow>
        extract_sequence db P llrint_mul bytesPerSample clip track si (sil, c, w0) = Inl e) \<and>
     (\<forall>llrint_mul clip track ss1 si ss2 st0 st e.
        fold_err (extract_sequence db P llrint_mul bytesPerSample clip track) ss1 st0 = Inr st \<and>
        extract_sequence db P llrint_mul bytesPerSample clip track si st = Inl e \<longrightarrow>
        fold_err (extract_sequence db P llrint_mul bytesPerSample clip track) (ss1 @ si # ss2) st0 = Inl e) \<and>
     (\<forall>llrint_mul clip e.
        BytesPerSample (mSampleFormat (mWaveTracks P ! cl_mParent clip)) = Inr bytesPerSample \<and>
        fold_err (extract_sequence db P llrint_mul bytesPerSample clip (mWaveTracks P ! cl_mParent clip))
           (mSequences_of clip)
           ([], 0, new_WaveFile (mSampleFormat (mWaveTracks P ! cl_mParent clip))
                     (mRate (mWaveTracks P ! cl_mParent clip)) 1) = Inl e \<longrightarrow>
        extract_clip db P llrint_mul clip = Inl e) \<and>
     (\<forall>llrint_mul cs1 clip cs2 e.
        mClips P = cs1 @ clip # cs2 \<and>
        list_all (\<lambda>c. \<not> isl (extract_clip db P llrint_mul c)) cs1 \<and>
        extract_clip db P llrint_mul clip = Inl e \<longrightarrow>
        extractClips db P llrint_mul = Inl e)"
proof -
  have a: "extract_block db P bytesPerSample firstSample lastSample silence cap block w = Inl UnexpectedBlobSize
        \<longleftrightarrow> (\<exists>row \<in> set rows. blob_truncated needed off row)"
    unfolding extract_block_rows[where db = db, OF assms(1-4)] assms(6)[symmetric] assms(7)[symmetric]
    by (rule extract_rows_truncated[OF assms(5) assms(9) assms(8) assms(10)])
  show ?thesis
    apply (intro conjI allI impI)
    subgoal by (rule a)
    subgoal by (simp add: fold_err_append)
    subgoal by (simp add: extract_sequence_def Let_def)
    subgoal by (simp add: fold_err_append)
    subgoal by (simp add: extract_clip_def Let_def)
    subgoal for llrint_mul cs1 clip cs2 e
      by (rule extractClips_raises[of P cs1 clip cs2]) simp_all
    done
qed


text \<open>
  C2 as stated fails twice on \<open>C2_project\<close>, whose one block, of one sample, has a blob
  of three bytes. With the track in \<open>Int24\<close> the blob holds fewer than
  \<open>1 * DiskBytesPerSample = 4\<close> bytes, and nothing is raised: the test counts
  \<open>BytesPerSample = 3\<close> bytes a sample. With the track in \<open>Float32\<close> the error is raised,
  and it is the result of \<open>extractClips\<close>: nothing catches it.
\<close>

theorem C2_counterexample:
  "DiskBytesPerSample Int24 = Inr 4 \<and>
   length (samples C2_row) < unat (effective_len (C2_project Int24) C2_block 0 1) * 4 \<and>
   \<not> isSilence C2_block \<and>
   C2_store (mBlockId C2_block) = Inr [C2_row] \<and>
   \<not> isl (extractClips C2_store (C2_project Int24) C2_llrint_mul) \<and>
   extractClips C2_store (C2_project Float32) C2_llrint_mul = Inl UnexpectedBlobSize"
proof -
  have "DiskBytesPerSample Int24 = Inr 4"
    by (simp add: DiskBytesPerSample_def Int16_def Int24_def)
  moreover have "length (samples C2_row) < unat (effective_len (C2_project Int24) C2_block 0 1) * 4"
    by (simp add: C2_window(2) C2_row_def)
  ultimately show ?thesis
    using C2_window(4,5) C2_extractClips_Int24 C2_extractClips_Float32 by simp
qed

text \<open>
  On \<open>C2_trimmed_project\<close> the window is the second sample of the block, at the offset 2
  of the blob. The first row holds both samples; the second row holds one byte, fewer
  than the two bytes of the window behind the offset 2, and the error is raised.
\<close>

theorem C2_truncated_blob_error_witness:
  "\<not> outside_window C2_trimmed_project C2_block 1 2 \<and>
   0 < sint (effective_len C2_trimmed_project C2_block 1 2) \<and>
   \<not> isSilence C2_block \<and>
   C2_trimmed_store (mBlockId C2_block) = Inr [C2_whole_row, C2_short_row] \<and>
   mChannels (new_WaveFile Int16 1 1) \<noteq> [] \<and>
   unat ((clamped_start C2_block 1 - mStart C2_block) * of_nat 2 :: 64 word) = 2 \<and>
   \<not> blob_truncated 2 2 C2_whole_row \<and>
   blob_truncated 2 2 C2_short_row \<and>
   extract_block C2_trimmed_store C2_trimmed_project 2 1 2 [] 0 C2_block (new_WaveFile Int16 1 1)
     = Inl UnexpectedBlobSize \<and>
   fold_err (extract_block C2_trimmed_store C2_trimmed_project 2 1 2 [] 0) [C2_block]
     (new_WaveFile Int16 1 1) = Inl UnexpectedBlobSize"
proof -
  let ?P = C2_trimmed_project and ?w = "new_WaveFile Int16 1 1"
  have h: "\<not> outside_window ?P C2_block 1 2" "0 < sint (effective_len ?P C2_block 1 2)"
    "\<not> isSilence C2_block" "C2_trimmed_store (mBlockId C2_block) = Inr [C2_whole_row, C2_short_row]"
    "mChannels ?w \<noteq> []"
    using C2_trimmed_window C2_window(4)
    by (simp_all add: new_WaveFile_def) (simp add: C2_trimmed_store_def C2_block_def)
  have n: "(2 :: 64 word) = effective_len ?P C2_block 1 2 * of_nat 2"
    by (simp add: C2_trimmed_window)
  have o: "(2 :: nat) = unat ((clamped_start C2_block 1 - mStart C2_block) * of_nat 2 :: 64 word)"
    by (simp add: C2_trimmed_window)
  have r: "0 \<le> sint (2 :: 64 word)"
    "\<forall>row \<in> set [C2_whole_row, C2_short_row]. length (samples row) < 2 ^ 63"
    "\<forall>row \<in> set [C2_whole_row, C2_short_row]. unat (2 :: 64 word) \<le> length (samples row) \<longrightarrow>
       2 + unat (2 :: 64 word) \<le> length (samples row)"
    by (simp_all add: C2_whole_row_def C2_short_row_def)
  have t: "blob_truncated 2 2 C2_short_row" "\<not> blob_truncated 2 2 C2_whole_row"
    by (simp_all add: blob_truncated_def C2_short_row_def C2_whole_row_def)
  note inst = C2_truncated_blob_error[where db = C2_trimmed_store and bytesPerSample = 2
      and silence = "[]" and cap = 0, OF h n o r]
  have "\<exists>row \<in> set [C2_whole_row, C2_short_row]. blob_truncated 2 2 row"
    using t by simp
  with inst[THEN conjunct1] have e: "extract_block C2_trimmed_store ?P 2 1 2 [] 0 C2_block ?w
      = Inl UnexpectedBlobSize"
    by (rule iffD2)
  have f0: "fold_err (extract_block C2_trimmed_store ?P 2 1 2 [] 0) [] ?w = Inr ?w" by simp
  have "fold_err (extract_block C2_trimmed_store ?P 2 1 2 [] 0) ([] @ C2_block # []) ?w
      = Inl UnexpectedBlobSize"
    using inst[THEN conjunct2, THEN conjunct1, rule_format, of "[]" ?w UnexpectedBlobSize "[]"] f0 e
    by simp
  then show ?thesis using h o[symmetric] t e by simp
qed

section \<open>The binary XML stream (BinaryXMLConverter.cpp)\<close>

text \<open>Sequencing of two steps of which the first may throw.\<close>

definition and_then :: "error + 'a \<Rightarrow> ('a \<Rightarrow> error + 'b) \<Rightarrow> error + 'b" where
  "and_then m f = (case m of Inl e \<Rightarrow> Inl e | Inr x \<Rightarrow> f x)"

text \<open>
  What the model takes from the platform is its parameter: the transcoders of utf8cpp,
  which throw on an invalid sequence (\<open>None\<close>); the conversions of
  \<^verbatim>\<open>GetAttributeValue\<close> that go through floating point or \<^verbatim>\<open>std::from_chars\<close>; and
  the indeterminate contents of the storage in which the \<open>k\<close>-th object of a deque is
  constructed, which a member keeps when no attribute sets it; and whether
  \<^verbatim>\<open>push_back\<close> on a \<^verbatim>\<open>std::vector\<close> that has grown to \<open>n\<close> elements by
  \<^verbatim>\<open>push_back\<close> alone finds no spare capacity, and moves the elements to new storage.
\<close>

record platform =
  utf16to8 :: "byte list \<Rightarrow> string option"
  utf32to8 :: "byte list \<Rightarrow> string option"
  float_to_int64 :: "32 word \<Rightarrow> 64 word"
  double_to_int64 :: "64 word \<Rightarrow> 64 word"
  float_to_int32 :: "32 word \<Rightarrow> 32 word"
  double_to_int32 :: "64 word \<Rightarrow> 32 word"
  arithmetic_to_double :: "AttributeValue \<Rightarrow> 64 word"
  from_chars_int64 :: "string \<Rightarrow> 64 word option"
  from_chars_int32 :: "string \<Rightarrow> 32 word option"
  from_chars_double :: "string \<Rightarrow> 64 word option"
  raw_WaveBlock :: "nat \<Rightarrow> WaveBlock"
  raw_Sequence :: "nat \<Rightarrow> Sequence"
  raw_Clip :: "nat \<Rightarrow> Clip"
  raw_WaveTrack :: "nat \<Rightarrow> WaveTrack"
  push_back_moves :: "nat \<Rightarrow> bool"

record Stream =
  mBuffer :: Buffer
  mOffset :: nat
  mBufferSize :: nat
  mCharSize :: nat

definition new_Stream :: "Buffer \<Rightarrow> Stream" where
  "new_Stream buffer = \<lparr>mBuffer = buffer, mOffset = 0, mBufferSize = getSize buffer, mCharSize = 0\<rparr>"

text \<open>\<^verbatim>\<open>Stream::read<T>\<close> with \<open>sz = sizeof(T)\<close>: the bytes of the value, in the order of the buffer.\<close>

definition Stream_read :: "nat \<Rightarrow> Stream \<Rightarrow> error + byte list \<times> Stream" where
  "Stream_read sz s =
     (let result = Buffer_read_T (mBuffer s) sz (mOffset s)
      in if sz \<noteq> length result then Inl overflow_error
         else Inr (result, s\<lparr>mOffset := mOffset s + sz\<rparr>))"

definition read_u8 :: "Stream \<Rightarrow> error + 8 word \<times> Stream" where
  "read_u8 s = and_then (Stream_read 1 s) (\<lambda>(bs, s'). Inr (of_nat (le_nat bs), s'))"

definition read_u16 :: "Stream \<Rightarrow> error + 16 word \<times> Stream" where
  "read_u16 s = and_then (Stream_read 2 s) (\<lambda>(bs, s'). Inr (of_nat (le_nat bs), s'))"

definition read_u32 :: "Stream \<Rightarrow> error + 32 word \<times> Stream" where
  "read_u32 s = and_then (Stream_read 4 s) (\<lambda>(bs, s'). Inr (of_nat (le_nat bs), s'))"

definition read_u64 :: "Stream \<Rightarrow> error + 64 word \<times> Stream" where
  "read_u64 s = and_then (Stream_read 8 s) (\<lambda>(bs, s'). Inr (of_nat (le_nat bs), s'))"

definition setCharSize :: "nat \<Rightarrow> Stream \<Rightarrow> Stream" where
  "setCharSize sz s = s\<lparr>mCharSize := sz\<rparr>"

text \<open>
  \<^verbatim>\<open>Stream::readString\<close>. The length is a number of bytes; with a char size of 2 or 4 the
  whole code units among them are transcoded.
\<close>

definition readString :: "platform \<Rightarrow> bool \<Rightarrow> Stream \<Rightarrow> error + string \<times> Stream" where
  "readString lib useInt s =
     (if mCharSize s = 0 then Inl CharSizeNotSet
      else
        and_then (if useInt then and_then (read_u32 s) (\<lambda>(n, s'). Inr (unat n, s'))
                  else and_then (read_u16 s) (\<lambda>(n, s'). Inr (unat n, s')))
          (\<lambda>(bytesCount, s1).
             let data = Buffer_read (mBuffer s1) (mOffset s1) bytesCount
             in if bytesCount \<noteq> length data then Inl overflow_error
                else
                  let s2 = s1\<lparr>mOffset := mOffset s1 + bytesCount\<rparr>
                  in if mCharSize s2 = 1 then Inr (data, s2)
                     else if mCharSize s2 = 2 then
                       (case utf16to8 lib (take (bytesCount div 2 * 2) data) of
                          None \<Rightarrow> Inl invalid_utf
                        | Some result \<Rightarrow> Inr (result, s2))
                     else if mCharSize s2 = 4 then
                       (case utf32to8 lib (take (bytesCount div 4 * 4) data) of
                          None \<Rightarrow> Inl invalid_utf
                        | Some result \<Rightarrow> Inr (result, s2))
                     else Inl InvalidCharSize))"

definition skip :: "nat \<Rightarrow> Stream \<Rightarrow> error + Stream" where
  "skip bytes s =
     (let targetOffset = mOffset s + bytes
      in if targetOffset > mBufferSize s then Inl overflow_error
         else Inr (s\<lparr>mOffset := targetOffset\<rparr>))"

definition skipString :: "bool \<Rightarrow> Stream \<Rightarrow> error + Stream" where
  "skipString useInt s =
     and_then (if useInt then and_then (read_u32 s) (\<lambda>(n, s'). Inr (unat n, s'))
               else and_then (read_u16 s) (\<lambda>(n, s'). Inr (unat n, s')))
       (\<lambda>(bytesCount, s1). skip bytesCount s1)"

definition isEof :: "Stream \<Rightarrow> bool" where
  "isEof s \<longleftrightarrow> mBufferSize s = mOffset s"

section \<open>XMLHandler and XMLHandlerHelper\<close>

text \<open>
  An \<^verbatim>\<open>XMLHandler\<close> is its three virtual functions, on the state \<open>'h\<close> of the object
  that implements them. Each may throw: the result of a call is the exception, if one
  leaves the call, and the state in which the call leaves the object.
\<close>

record 'h XMLHandler =
  HandleTagStart :: "string \<Rightarrow> Attribute list \<Rightarrow> 'h \<Rightarrow> error option \<times> 'h"
  HandleTagEnd :: "string \<Rightarrow> 'h \<Rightarrow> error option \<times> 'h"
  HandleCharData :: "string \<Rightarrow> 'h \<Rightarrow> error option \<times> 'h"

text \<open>
  The members of \<open>XMLHandlerHelper\<close>, with the handler in place of the reference to it.
  \<^verbatim>\<open>mCurrentTagName\<close> and the names of \<^verbatim>\<open>mAttributes\<close> are views of strings that
  \<open>IdsLookup\<close> owns; here they are the strings viewed, and \<open>Parse\<close> keeps track of whether
  the views are still good (\<open>viewed\<close> and \<open>dangling\<close> below).
\<close>

record 'h XMLHandlerHelper =
  mHandler :: 'h
  mCurrentTagName :: string
  mAttributes :: "Attribute list"
  mInTag :: bool

definition new_XMLHandlerHelper :: "'h \<Rightarrow> 'h XMLHandlerHelper" where
  "new_XMLHandlerHelper handler =
     \<lparr>mHandler = handler, mCurrentTagName = [], mAttributes = [], mInTag = False\<rparr>"

text \<open>
  The private \<^verbatim>\<open>emitStartTag()\<close>. When \<^verbatim>\<open>HandleTagStart\<close> throws, the attributes
  are not cleared and \<^verbatim>\<open>mInTag\<close> stays set.
\<close>

definition flushStartTag ::
  "'h XMLHandler \<Rightarrow> 'h XMLHandlerHelper \<Rightarrow> error option \<times> 'h XMLHandlerHelper" where
  "flushStartTag H h =
     (case HandleTagStart H (mCurrentTagName h) (mAttributes h) (mHandler h) of
        (Some e, handler') \<Rightarrow> (Some e, h\<lparr>mHandler := handler'\<rparr>)
      | (None, handler') \<Rightarrow> (None, h\<lparr>mHandler := handler', mAttributes := [], mInTag := False\<rparr>))"

definition flushIfInTag ::
  "'h XMLHandler \<Rightarrow> 'h XMLHandlerHelper \<Rightarrow> error option \<times> 'h XMLHandlerHelper" where
  "flushIfInTag H h = (if mInTag h then flushStartTag H h else (None, h))"

definition emitStartTag ::
  "'h XMLHandler \<Rightarrow> string \<Rightarrow> 'h XMLHandlerHelper \<Rightarrow> error option \<times> 'h XMLHandlerHelper" where
  "emitStartTag H name h =
     (case flushIfInTag H h of
        (Some e, h') \<Rightarrow> (Some e, h')
      | (None, h') \<Rightarrow> (None, h'\<lparr>mCurrentTagName := name, mInTag := True\<rparr>))"

definition emitEndTag ::
  "'h XMLHandler \<Rightarrow> string \<Rightarrow> 'h XMLHandlerHelper \<Rightarrow> error option \<times> 'h XMLHandlerHelper" where
  "emitEndTag H name h =
     (case flushIfInTag H h of
        (Some e, h') \<Rightarrow> (Some e, h')
      | (None, h') \<Rightarrow>
          (case HandleTagEnd H name (mHandler h') of
             (x, handler') \<Rightarrow> (x, h'\<lparr>mHandler := handler'\<rparr>)))"

definition addAttr ::
  "string \<Rightarrow> AttributeValue \<Rightarrow> 'h XMLHandlerHelper \<Rightarrow> error option \<times> 'h XMLHandlerHelper" where
  "addAttr name val h =
     (if \<not> mInTag h then (Some AttributeOutsideTag, h)
      else (None, h\<lparr>mAttributes := mAttributes h @ [\<lparr>Name = name, Value = val\<rparr>]\<rparr>))"

definition writeData ::
  "'h XMLHandler \<Rightarrow> string \<Rightarrow> 'h XMLHandlerHelper \<Rightarrow> error option \<times> 'h XMLHandlerHelper" where
  "writeData H val h =
     (case flushIfInTag H h of
        (Some e, h') \<Rightarrow> (Some e, h')
      | (None, h') \<Rightarrow>
          (case HandleCharData H val (mHandler h') of
             (x, handler') \<Rightarrow> (x, h'\<lparr>mHandler := handler'\<rparr>)))"

section \<open>AudacityProject as the handler of the parser (ProjectModel.cpp)\<close>

subsection \<open>GetAttributeValue\<close>

text \<open>
  \<^verbatim>\<open>GetAttributeValue<Ret>\<close> for the types of the members it is called with. An
  arithmetic alternative is cast (\<^verbatim>\<open>is_convertible_v<Ret, T>\<close>), a string goes through
  \<^verbatim>\<open>std::from_chars\<close>, and a \<^verbatim>\<open>std::string_view\<close> member takes a string only.
\<close>

fun GetAttributeValue_int64 :: "platform \<Rightarrow> AttributeValue \<Rightarrow> error + 64 word" where
  "GetAttributeValue_int64 lib (AV_bool arg) = Inr (if arg then 1 else 0)"
| "GetAttributeValue_int64 lib (AV_int32 arg) = Inr (scast arg)"
| "GetAttributeValue_int64 lib (AV_uint32 arg) = Inr (ucast arg)"
| "GetAttributeValue_int64 lib (AV_int64 arg) = Inr arg"
| "GetAttributeValue_int64 lib (AV_size_t arg) = Inr arg"
| "GetAttributeValue_int64 lib (AV_float arg) = Inr (float_to_int64 lib arg)"
| "GetAttributeValue_int64 lib (AV_double arg) = Inr (double_to_int64 lib arg)"
| "GetAttributeValue_int64 lib (AV_string arg) =
     (case from_chars_int64 lib arg of None \<Rightarrow> Inl IncompatibleAttributeType | Some v \<Rightarrow> Inr v)"

fun GetAttributeValue_int32 :: "platform \<Rightarrow> AttributeValue \<Rightarrow> error + 32 word" where
  "GetAttributeValue_int32 lib (AV_bool arg) = Inr (if arg then 1 else 0)"
| "GetAttributeValue_int32 lib (AV_int32 arg) = Inr arg"
| "GetAttributeValue_int32 lib (AV_uint32 arg) = Inr arg"
| "GetAttributeValue_int32 lib (AV_int64 arg) = Inr (ucast arg)"
| "GetAttributeValue_int32 lib (AV_size_t arg) = Inr (ucast arg)"
| "GetAttributeValue_int32 lib (AV_float arg) = Inr (float_to_int32 lib arg)"
| "GetAttributeValue_int32 lib (AV_double arg) = Inr (double_to_int32 lib arg)"
| "GetAttributeValue_int32 lib (AV_string arg) =
     (case from_chars_int32 lib arg of None \<Rightarrow> Inl IncompatibleAttributeType | Some v \<Rightarrow> Inr v)"

fun GetAttributeValue_double :: "platform \<Rightarrow> AttributeValue \<Rightarrow> error + 64 word" where
  "GetAttributeValue_double lib (AV_double arg) = Inr arg"
| "GetAttributeValue_double lib (AV_string arg) =
     (case from_chars_double lib arg of None \<Rightarrow> Inl IncompatibleAttributeType | Some v \<Rightarrow> Inr v)"
| "GetAttributeValue_double lib arg = Inr (arithmetic_to_double lib arg)"

fun GetAttributeValue_string_view :: "AttributeValue \<Rightarrow> error + string" where
  "GetAttributeValue_string_view (AV_string arg) = Inr arg"
| "GetAttributeValue_string_view arg = Inl IncompatibleAttributeType"

subsection \<open>The constructors of the domain objects\<close>

text \<open>
  Each constructor runs over the attributes of its node; the body of that loop is a
  function of the attribute and the object under construction.
\<close>

definition WaveBlock_attr :: "platform \<Rightarrow> Attribute \<Rightarrow> WaveBlock \<Rightarrow> error + WaveBlock" where
  "WaveBlock_attr lib attr b =
     (if Name attr = ''start''
      then and_then (GetAttributeValue_int64 lib (Value attr)) (\<lambda>v. Inr (b\<lparr>mStart := v\<rparr>))
      else if Name attr = ''blockid''
      then and_then (GetAttributeValue_int64 lib (Value attr)) (\<lambda>v. Inr (b\<lparr>mBlockId := v\<rparr>))
      else Inr b)"

definition Sequence_attr :: "platform \<Rightarrow> Attribute \<Rightarrow> Sequence \<Rightarrow> error + Sequence" where
  "Sequence_attr lib attr s =
     (if Name attr = ''maxsamples''
      then and_then (GetAttributeValue_int64 lib (Value attr)) (\<lambda>v. Inr (s\<lparr>mMaxSamples := v\<rparr>))
      else if Name attr = ''numsamples''
      then and_then (GetAttributeValue_int64 lib (Value attr)) (\<lambda>v. Inr (s\<lparr>mNumSamples := v\<rparr>))
      else if Name attr = ''sampleformat''
      then and_then (GetAttributeValue_int32 lib (Value attr)) (\<lambda>v. Inr (s\<lparr>mFormat := v\<rparr>))
      else Inr s)"

definition Clip_attr :: "platform \<Rightarrow> Attribute \<Rightarrow> Clip \<Rightarrow> error + Clip" where
  "Clip_attr lib attr c =
     (if Name attr = ''offset''
      then and_then (GetAttributeValue_double lib (Value attr)) (\<lambda>v. Inr (c\<lparr>cl_mOffset := v\<rparr>))
      else if Name attr = ''trimLeft''
      then and_then (GetAttributeValue_double lib (Value attr)) (\<lambda>v. Inr (c\<lparr>mTrimLeft := v\<rparr>))
      else if Name attr = ''trimRight''
      then and_then (GetAttributeValue_double lib (Value attr)) (\<lambda>v. Inr (c\<lparr>mTrimRight := v\<rparr>))
      else if Name attr = ''name''
      then and_then (GetAttributeValue_string_view (Value attr)) (\<lambda>v. Inr (c\<lparr>cl_mName := v\<rparr>))
      else Inr c)"

definition WaveTrack_attr :: "platform \<Rightarrow> Attribute \<Rightarrow> WaveTrack \<Rightarrow> error + WaveTrack" where
  "WaveTrack_attr lib attr t =
     (if Name attr = ''channel''
      then and_then (GetAttributeValue_int32 lib (Value attr)) (\<lambda>v. Inr (t\<lparr>mChannel := v\<rparr>))
      else if Name attr = ''linked''
      then and_then (GetAttributeValue_bool (Value attr)) (\<lambda>v. Inr (t\<lparr>mLinked := v\<rparr>))
      else if Name attr = ''name''
      then and_then (GetAttributeValue_string_view (Value attr)) (\<lambda>v. Inr (t\<lparr>tr_mName := v\<rparr>))
      else if Name attr = ''sampleformat''
      then and_then (GetAttributeValue_int32 lib (Value attr)) (\<lambda>v. Inr (t\<lparr>mSampleFormat := v\<rparr>))
      else if Name attr = ''rate''
      then and_then (GetAttributeValue_int32 lib (Value attr)) (\<lambda>v. Inr (t\<lparr>mRate := v\<rparr>))
      else Inr t)"

text \<open>
  The constructors, for the object that \<^verbatim>\<open>emplace_back\<close> builds at the end of its deque:
  the project afterwards. The object starts from the contents of its storage, with its
  pointers, its position and its empty vector or view set by the member initialisers.
\<close>

definition new_WaveBlock ::
  "platform \<Rightarrow> node_ptr \<Rightarrow> Attribute list \<Rightarrow> nat \<Rightarrow> AudacityProject \<Rightarrow> error + AudacityProject" where
  "new_WaveBlock lib node attrs parent P =
     and_then
       (fold_err (WaveBlock_attr lib) attrs
          ((raw_WaveBlock lib (length (mWaveBlocks P)))
             \<lparr>wb_mXMLNode := Some node, wb_mParent := parent,
              wb_mParentIndex := length (mBlocks (mSequences P ! parent))\<rparr>))
       (\<lambda>b. Inr (P\<lparr>mWaveBlocks := mWaveBlocks P @ [b],
                      mSequences := (mSequences P)
                        [parent := (mSequences P ! parent)
                           \<lparr>mBlocks := mBlocks (mSequences P ! parent) @ [length (mWaveBlocks P)]\<rparr>]\<rparr>))"

definition new_Sequence ::
  "platform \<Rightarrow> node_ptr \<Rightarrow> Attribute list \<Rightarrow> nat \<Rightarrow> AudacityProject \<Rightarrow> error + AudacityProject" where
  "new_Sequence lib node attrs parent P =
     and_then
       (fold_err (Sequence_attr lib) attrs
          ((raw_Sequence lib (length (mSequences P)))
             \<lparr>sq_mXMLNode := Some node, sq_mParent := parent,
              sq_mParentIndex := length (mSequences_of (mClips P ! parent)), mBlocks := []\<rparr>))
       (\<lambda>s. Inr (P\<lparr>mSequences := mSequences P @ [s],
                      mClips := (mClips P)
                        [parent := (mClips P ! parent)
                           \<lparr>mSequences_of := mSequences_of (mClips P ! parent) @ [length (mSequences P)]\<rparr>]\<rparr>))"

definition new_Clip ::
  "platform \<Rightarrow> node_ptr \<Rightarrow> Attribute list \<Rightarrow> nat \<Rightarrow> AudacityProject \<Rightarrow> error + AudacityProject" where
  "new_Clip lib node attrs parent P =
     and_then
       (fold_err (Clip_attr lib) attrs
          ((raw_Clip lib (length (mClips P)))
             \<lparr>cl_mXMLNode := Some node, cl_mParent := parent,
              cl_mParentIndex := length (mClips_of (mWaveTracks P ! parent)), cl_mName := [],
              mSequences_of := []\<rparr>))
       (\<lambda>c. Inr (P\<lparr>mClips := mClips P @ [c],
                      mWaveTracks := (mWaveTracks P)
                        [parent := (mWaveTracks P ! parent)
                           \<lparr>mClips_of := mClips_of (mWaveTracks P ! parent) @ [length (mClips P)]\<rparr>]\<rparr>))"

definition new_WaveTrack ::
  "platform \<Rightarrow> node_ptr \<Rightarrow> Attribute list \<Rightarrow> nat \<Rightarrow> AudacityProject \<Rightarrow> error + AudacityProject" where
  "new_WaveTrack lib node attrs index P =
     and_then
       (fold_err (WaveTrack_attr lib) attrs
          ((raw_WaveTrack lib (length (mWaveTracks P)))
             \<lparr>tr_mXMLNode := Some node, tr_mParentIndex := index, tr_mName := [], mClips_of := []\<rparr>))
       (\<lambda>t. Inr (P\<lparr>mWaveTracks := mWaveTracks P @ [t]\<rparr>))"

subsection \<open>The tree under construction\<close>

definition attach_child :: "ProjectTreeNode \<Rightarrow> ProjectTreeNode \<Rightarrow> ProjectTreeNode" where
  "attach_child parent child =
     ProjectTreeNode (TagName parent) (Attributes parent) (Children parent @ [child])
       (ParentIndex parent) (Data parent)"

text \<open>The tree that a stack of open nodes stands for: every node attached to the one below it.\<close>

fun plug :: "ProjectTreeNode \<Rightarrow> ProjectTreeNode list \<Rightarrow> ProjectTreeNode" where
  "plug node [] = node"
| "plug node (parent # stack) = plug (attach_child parent node) stack"

text \<open>The pointer to the node at the top of the stack: the path to it from the root.\<close>

definition top_ptr :: "ProjectTreeNode list \<Rightarrow> node_ptr" where
  "top_ptr stack = rev (map ParentIndex (butlast stack))"

text \<open>
  When a new root replaces \<^verbatim>\<open>mProjectNode\<close> the old tree is destroyed, and the objects built
  from its nodes are left with dangling pointers.
\<close>

definition invalidate_nodes :: "AudacityProject \<Rightarrow> AudacityProject" where
  "invalidate_nodes P =
     P\<lparr>mWaveBlocks := map (\<lambda>b. b\<lparr>wb_mXMLNode := None\<rparr>) (mWaveBlocks P),
       mSequences := map (\<lambda>s. s\<lparr>sq_mXMLNode := None\<rparr>) (mSequences P),
       mClips := map (\<lambda>c. c\<lparr>cl_mXMLNode := None\<rparr>) (mClips P),
       mWaveTracks := map (\<lambda>t. t\<lparr>tr_mXMLNode := None\<rparr>) (mWaveTracks P),
       mProjectNode := None\<rparr>"

definition CacheString :: "string \<Rightarrow> bool \<Rightarrow> AudacityProject \<Rightarrow> AudacityProject" where
  "CacheString view reuse P =
     (if reuse
      then (if view \<in> set (mReusableStringsCache P) then P
            else P\<lparr>mReusableStringsCache := mReusableStringsCache P @ [view]\<rparr>)
      else P\<lparr>mStringCache := mStringCache P @ [view]\<rparr>)"

text \<open>The body of the loop of \<open>HandleTagStart\<close> over the attributes.\<close>

definition cache_attribute :: "Attribute \<Rightarrow> AudacityProject \<Rightarrow> AudacityProject" where
  "cache_attribute attr P =
     CacheString (Name attr) True
       (case Value attr of AV_string s \<Rightarrow> CacheString s False P | _ \<Rightarrow> P)"

text \<open>
  The last part of \<open>HandleTagStart\<close>: the domain object of the node, by the name of the
  tag. \<open>stack\<close> is \<open>DeserializedNodeStack\<close> before the push; \<^verbatim>\<open>back()\<close> of an empty
  vector is undefined behaviour.
\<close>

definition deserialize_node ::
  "platform \<Rightarrow> string \<Rightarrow> node_ptr \<Rightarrow> Attribute list \<Rightarrow> DeserializedNodeStackElement list \<Rightarrow>
   AudacityProject \<Rightarrow> error + DeserializedNodeStackElement \<times> AudacityProject" where
  "deserialize_node lib name node attrs stack P =
     (if name = ''waveblock'' then
        (case stack of
           [] \<Rightarrow> Inl UndefinedBehaviour
         | Sequence_ptr parent # _ \<Rightarrow>
             and_then (new_WaveBlock lib node attrs parent P)
               (\<lambda>P'. Inr (WaveBlock_ptr (length (mWaveBlocks P)), P'))
         | _ # _ \<Rightarrow> Inl bad_variant_access)
      else if name = ''sequence'' then
        (case stack of
           [] \<Rightarrow> Inl UndefinedBehaviour
         | Clip_ptr parent # _ \<Rightarrow>
             and_then (new_Sequence lib node attrs parent P)
               (\<lambda>P'. Inr (Sequence_ptr (length (mSequences P)), P'))
         | _ # _ \<Rightarrow> Inl bad_variant_access)
      else if name = ''waveclip'' then
        (case stack of
           [] \<Rightarrow> Inl UndefinedBehaviour
         | WaveTrack_ptr parent # _ \<Rightarrow>
             and_then (new_Clip lib node attrs parent P)
               (\<lambda>P'. Inr (Clip_ptr (length (mClips P)), P'))
         | _ # _ \<Rightarrow> Inl bad_variant_access)
      else if name = ''wavetrack'' then
        and_then (new_WaveTrack lib node attrs (length (mWaveTracks P)) P)
          (\<lambda>P'. Inr (WaveTrack_ptr (length (mWaveTracks P)), P'))
      else Inr (monostate, P))"

text \<open>
  \<open>HandleTagStart\<close>. When the constructor of the domain object throws, or
  \<^verbatim>\<open>std::get\<close> on the top of \<open>DeserializedNodeStack\<close> does, the node has been created,
  filled and pushed on \<open>NodesStack\<close>, the strings are cached, no object has been added to
  its deque (\<^verbatim>\<open>emplace_back\<close> at the end of a deque has no effect when it throws) and
  nothing has been pushed on \<open>DeserializedNodeStack\<close>.
\<close>

definition AudacityProject_HandleTagStart ::
  "platform \<Rightarrow> string \<Rightarrow> Attribute list \<Rightarrow> AudacityProject \<Rightarrow> error option \<times> AudacityProject" where
  "AudacityProject_HandleTagStart lib name attributes P =
     (case mParserState P of
        None \<Rightarrow> (Some UndefinedBehaviour, P)
      | Some ps \<Rightarrow>
          let P1 = (if NodesStack ps = [] then invalidate_nodes P else P);
              parentIndex = (case NodesStack ps of [] \<Rightarrow> 0 | parent # _ \<Rightarrow> length (Children parent));
              P2 = fold cache_attribute attributes (CacheString name True P1);
              node = ProjectTreeNode name attributes [] parentIndex [];
              nodes = node # NodesStack ps
          in (case deserialize_node lib name (top_ptr nodes) attributes (DeserializedNodeStack ps) P2 of
                Inl e \<Rightarrow>
                  (Some e, P2\<lparr>mParserState :=
                                 Some \<lparr>NodesStack = nodes,
                                       DeserializedNodeStack = DeserializedNodeStack ps\<rparr>\<rparr>)
              | Inr (element, P3) \<Rightarrow>
                  (None, P3\<lparr>mParserState :=
                              Some \<lparr>NodesStack = nodes,
                                    DeserializedNodeStack = element # DeserializedNodeStack ps\<rparr>\<rparr>)))"

text \<open>\<open>HandleTagEnd\<close>: \<^verbatim>\<open>pop_back()\<close> of an empty vector is undefined behaviour.\<close>

definition AudacityProject_HandleTagEnd :: "string \<Rightarrow> AudacityProject \<Rightarrow> error option \<times> AudacityProject" where
  "AudacityProject_HandleTagEnd name P =
     (case mParserState P of
        None \<Rightarrow> (Some UndefinedBehaviour, P)
      | Some ps \<Rightarrow>
          (case (NodesStack ps, DeserializedNodeStack ps) of
             (node # nodes, element # elements) \<Rightarrow>
               (case nodes of
                  [] \<Rightarrow> (None, P\<lparr>mProjectNode := Some node,
                                   mParserState := Some \<lparr>NodesStack = [], DeserializedNodeStack = elements\<rparr>\<rparr>)
                | parent # rest \<Rightarrow>
                    (None, P\<lparr>mParserState :=
                               Some \<lparr>NodesStack = attach_child parent node # rest,
                                     DeserializedNodeStack = elements\<rparr>\<rparr>))
           | _ \<Rightarrow> (Some UndefinedBehaviour, P)))"

text \<open>\<open>HandleCharData\<close>: \<^verbatim>\<open>back()\<close> of an empty vector is undefined behaviour.\<close>

definition AudacityProject_HandleCharData :: "string \<Rightarrow> AudacityProject \<Rightarrow> error option \<times> AudacityProject" where
  "AudacityProject_HandleCharData data P =
     (case mParserState P of
        None \<Rightarrow> (Some UndefinedBehaviour, P)
      | Some ps \<Rightarrow>
          (case NodesStack ps of
             [] \<Rightarrow> (Some UndefinedBehaviour, P)
           | node # nodes \<Rightarrow>
               (None, P\<lparr>mParserState :=
                          Some (ps\<lparr>NodesStack :=
                                     ProjectTreeNode (TagName node) (Attributes node) (Children node)
                                       (ParentIndex node) data # nodes\<rparr>)\<rparr>)))"

definition AudacityProject_handler :: "platform \<Rightarrow> AudacityProject XMLHandler" where
  "AudacityProject_handler lib =
     \<lparr>HandleTagStart = AudacityProject_HandleTagStart lib,
      HandleTagEnd = AudacityProject_HandleTagEnd,
      HandleCharData = AudacityProject_HandleCharData\<rparr>"

section \<open>BinaryXMLConverter::Parse\<close>

text \<open>
  The locals of \<open>Parse\<close>. \<open>viewed\<close> holds the indices in \<open>lookup\<close> of the strings that
  the helper has views of since the start tag that is open was begun (the name of the
  tag, then the names of its attributes), and \<open>dangling\<close> tells whether one of those
  strings has since been moved or assigned to, so that its view is no longer good.
\<close>

record 'h ParseState =
  stream :: Stream
  lookup :: "string list"
  helper :: "'h XMLHandlerHelper"
  viewed :: "nat list"
  dangling :: bool

text \<open>
  The value of an attribute record, by its opcode: \<open>String\<close>, \<open>Int\<close>, \<open>Bool\<close>, \<open>Long\<close>,
  \<open>LongLong\<close>, \<open>SizeT\<close>, \<open>Float\<close>, \<open>Double\<close>. \<^verbatim>\<open>read<bool>\<close> copies one byte into
  a \<^verbatim>\<open>bool\<close>; a byte other than 0 and 1 is not the representation of a \<^verbatim>\<open>bool\<close>, and
  the use of such an object is undefined behaviour.
\<close>

definition read_value :: "platform \<Rightarrow> nat \<Rightarrow> Stream \<Rightarrow> error + AttributeValue \<times> Stream" where
  "read_value lib opCode s =
     (if opCode = 3 then and_then (readString lib True s) (\<lambda>(v, s'). Inr (AV_string v, s'))
      else if opCode = 4 \<or> opCode = 6 then and_then (read_u32 s) (\<lambda>(v, s'). Inr (AV_int32 v, s'))
      else if opCode = 5 then
        and_then (read_u8 s)
          (\<lambda>(v, s'). if v = 0 then Inr (AV_bool False, s')
                     else if v = 1 then Inr (AV_bool True, s')
                     else Inl UndefinedBehaviour)
      else if opCode = 7 then and_then (read_u64 s) (\<lambda>(v, s'). Inr (AV_int64 v, s'))
      else if opCode = 8 then and_then (read_u32 s) (\<lambda>(v, s'). Inr (AV_uint32 v, s'))
      else if opCode = 9 then and_then (read_u32 s) (\<lambda>(v, s'). Inr (AV_float v, s'))
      else and_then (read_u64 s) (\<lambda>(v, s'). Inr (AV_double v, s')))"

text \<open>
  A statement of \<open>Parse\<close> either throws, and the state is the one in which the exception
  leaves it, or goes on. \<open>reading\<close> is a read from the stream, \<open>looking_up\<close> a call of
  \<open>IdsLookup\<close>, \<open>on_helper\<close> a call of the helper.
\<close>

definition reading ::
  "error + 'a \<times> Stream \<Rightarrow> 'h ParseState \<Rightarrow> ('a \<Rightarrow> 'h ParseState \<Rightarrow> error option \<times> 'h ParseState) \<Rightarrow>
   error option \<times> 'h ParseState" where
  "reading r S f = (case r of Inl e \<Rightarrow> (Some e, S) | Inr (v, s) \<Rightarrow> f v (S\<lparr>stream := s\<rparr>))"

definition looking_up ::
  "error + 'a \<Rightarrow> 'h ParseState \<Rightarrow> ('a \<Rightarrow> error option \<times> 'h ParseState) \<Rightarrow>
   error option \<times> 'h ParseState" where
  "looking_up r S f = (case r of Inl e \<Rightarrow> (Some e, S) | Inr v \<Rightarrow> f v)"

definition on_helper ::
  "error option \<times> 'h XMLHandlerHelper \<Rightarrow> 'h ParseState \<Rightarrow> ('h ParseState \<Rightarrow> 'h ParseState) \<Rightarrow>
   error option \<times> 'h ParseState" where
  "on_helper r S g =
     (case r of (Some e, h) \<Rightarrow> (Some e, S\<lparr>helper := h\<rparr>) | (None, h) \<Rightarrow> (None, g (S\<lparr>helper := h\<rparr>)))"

text \<open>
  The helper is about to hand a start tag to the handler whose name, or the name of one
  of whose attributes, is a view that is no longer good.
\<close>

definition flushes_dangling :: "'h ParseState \<Rightarrow> bool" where
  "flushes_dangling S \<longleftrightarrow> mInTag (helper S) \<and> dangling S"

text \<open>
  \<^verbatim>\<open>lookup.store(id, ...)\<close> while a start tag is open: \<^verbatim>\<open>push_back\<close> moves every
  string when the vector has to grow, and the assignment to \<^verbatim>\<open>mIds[index]\<close> replaces
  the string that a view may be of.
\<close>

definition store_invalidates :: "platform \<Rightarrow> 'h ParseState \<Rightarrow> 16 word \<Rightarrow> bool" where
  "store_invalidates lib S index \<longleftrightarrow>
     mInTag (helper S) \<and>
     (if unat index = length (lookup S) then push_back_moves lib (length (lookup S))
      else unat index \<in> set (viewed S))"

text \<open>
  The cases of the \<^verbatim>\<open>switch\<close> for the attribute records. The source passes
  \<^verbatim>\<open>lookup.get(id)\<close> and the value read from the stream as the two arguments of
  \<^verbatim>\<open>addAttr\<close>, which C++ may evaluate in either order; the model looks the name up first.
  After a \<open>Float\<close> or a \<open>Double\<close> the four bytes of the digits are skipped, when the
  attribute has been added.
\<close>

definition attribute_record ::
  "platform \<Rightarrow> nat \<Rightarrow> 'h ParseState \<Rightarrow> error option \<times> 'h ParseState" where
  "attribute_record lib opCode S =
     reading (read_u16 (stream S)) S (\<lambda>id S1.
     looking_up (IdsLookup_get (lookup S1) id) S1 (\<lambda>name.
     reading (read_value lib opCode (stream S1)) S1 (\<lambda>v S2.
     on_helper (addAttr name v (helper S2)) S2 (\<lambda>S3. S3\<lparr>viewed := viewed S3 @ [unat id]\<rparr>))))"

definition skip_digits :: "nat \<Rightarrow> error option \<times> 'h ParseState \<Rightarrow> error option \<times> 'h ParseState" where
  "skip_digits opCode r =
     (case r of
        (Some e, S) \<Rightarrow> (Some e, S)
      | (None, S) \<Rightarrow>
          if opCode = 9 \<or> opCode = 10
          then (case skip 4 (stream S) of Inl e \<Rightarrow> (Some e, S) | Inr s \<Rightarrow> (None, S\<lparr>stream := s\<rparr>))
          else (None, S))"

text \<open>
  The \<^verbatim>\<open>switch\<close> on the opcode, the number of the enumerator of \<open>FieldTypes\<close>. An
  exception that is not thrown by the handler is thrown before the helper is changed.
\<close>

definition parse_record ::
  "platform \<Rightarrow> 'h XMLHandler \<Rightarrow> nat \<Rightarrow> 'h ParseState \<Rightarrow> error option \<times> 'h ParseState" where
  "parse_record lib H opCode S =
     (if opCode = 0 then
        reading (read_u8 (stream S)) S (\<lambda>sz S1.
          (None, S1\<lparr>stream := setCharSize (unat sz) (stream S1)\<rparr>))
      else if opCode = 1 then
        reading (read_u16 (stream S)) S (\<lambda>id S1.
        looking_up (IdsLookup_get (lookup S1) id) S1 (\<lambda>name.
          if flushes_dangling S1 then (Some UndefinedBehaviour, S1)
          else on_helper (emitStartTag H name (helper S1)) S1
                 (\<lambda>S2. S2\<lparr>viewed := [unat id], dangling := False\<rparr>)))
      else if opCode = 2 then
        reading (read_u16 (stream S)) S (\<lambda>id S1.
        looking_up (IdsLookup_get (lookup S1) id) S1 (\<lambda>name.
          if flushes_dangling S1 then (Some UndefinedBehaviour, S1)
          else on_helper (emitEndTag H name (helper S1)) S1
                 (\<lambda>S2. S2\<lparr>viewed := [], dangling := False\<rparr>)))
      else if 3 \<le> opCode \<and> opCode \<le> 10 then skip_digits opCode (attribute_record lib opCode S)
      else if opCode = 11 then
        reading (readString lib True (stream S)) S (\<lambda>v S1.
          if flushes_dangling S1 then (Some UndefinedBehaviour, S1)
          else on_helper (writeData H v (helper S1)) S1
                 (\<lambda>S2. S2\<lparr>viewed := [], dangling := False\<rparr>))
      else if opCode = 15 then
        reading (read_u16 (stream S)) S (\<lambda>id S1.
        reading (readString lib False (stream S1)) S1 (\<lambda>v S2.
        looking_up (IdsLookup_store (lookup S2) id v) S2 (\<lambda>ids.
          (None, S2\<lparr>lookup := ids, dangling := (dangling S2 \<or> store_invalidates lib S2 id)\<rparr>))))
      else if opCode = 12 then
        (case skipString True (stream S) of
           Inl e \<Rightarrow> (Some e, S)
         | Inr s \<Rightarrow> (None, S\<lparr>stream := s\<rparr>))
      else (Some UnsupportedOpcode, S))"

text \<open>One round of the \<^verbatim>\<open>while\<close> loop.\<close>

definition parse_step ::
  "platform \<Rightarrow> 'h XMLHandler \<Rightarrow> 'h ParseState \<Rightarrow> error option \<times> 'h ParseState" where
  "parse_step lib H S =
     reading (read_u8 (stream S)) S (\<lambda>opCode S1. parse_record lib H (unat opCode) S1)"

subsection \<open>Every round consumes a byte\<close>

definition advances :: "Stream \<Rightarrow> Stream \<Rightarrow> bool" where
  "advances s s' \<longleftrightarrow> mBuffer s' = mBuffer s \<and> mOffset s \<le> mOffset s'"

lemma and_then_Inr:
  "and_then m f = Inr y \<longleftrightarrow> (\<exists>x. m = Inr x \<and> f x = Inr y)"
  by (cases m) (auto simp: and_then_def)

lemma and_then_simps [simp]:
  "and_then (Inl e) f = Inl e" "and_then (Inr x) f = f x"
  by (simp_all add: and_then_def)

lemma advances_refl [simp]: "advances s s"
  by (simp add: advances_def)

lemma advances_trans: "advances s s' \<Longrightarrow> advances s' s'' \<Longrightarrow> advances s s''"
  by (auto simp: advances_def)

lemma Stream_read_advances:
  "Stream_read sz s = Inr (bs, s') \<Longrightarrow>
     mBuffer s' = mBuffer s \<and> mOffset s' = mOffset s + sz \<and> length bs = sz \<and>
     (0 < sz \<longrightarrow> mOffset s + sz \<le> getSize (mBuffer s))"
  by (auto simp: Stream_read_def Let_def Buffer_read_T_def split: if_splits)

lemma read_u8_advances:
  "read_u8 s = Inr (v, s') \<Longrightarrow> advances s s' \<and> mOffset s < mOffset s' \<and> mOffset s < getSize (mBuffer s)"
  by (auto simp: read_u8_def and_then_Inr advances_def dest!: Stream_read_advances)

lemma read_u16_advances: "read_u16 s = Inr (v, s') \<Longrightarrow> advances s s'"
  by (auto simp: read_u16_def and_then_Inr advances_def dest!: Stream_read_advances)

lemma read_u32_advances: "read_u32 s = Inr (v, s') \<Longrightarrow> advances s s'"
  by (auto simp: read_u32_def and_then_Inr advances_def dest!: Stream_read_advances)

lemma read_u64_advances: "read_u64 s = Inr (v, s') \<Longrightarrow> advances s s'"
  by (auto simp: read_u64_def and_then_Inr advances_def dest!: Stream_read_advances)

lemma skip_advances: "skip n s = Inr s' \<Longrightarrow> advances s s'"
  by (auto simp: skip_def Let_def advances_def split: if_splits)

lemma skipString_advances: "skipString useInt s = Inr s' \<Longrightarrow> advances s s'"
  by (auto simp: skipString_def and_then_Inr split: if_splits
      dest!: read_u16_advances read_u32_advances skip_advances intro: advances_trans)

lemma readString_advances: "readString lib useInt s = Inr (v, s') \<Longrightarrow> advances s s'"
proof -
  assume a: "readString lib useInt s = Inr (v, s')"
  then obtain n s1 where len: "(if useInt then and_then (read_u32 s) (\<lambda>(n, s'). Inr (unat n, s'))
                  else and_then (read_u16 s) (\<lambda>(n, s'). Inr (unat n, s'))) = Inr (n, s1)"
    by (auto simp: readString_def and_then_Inr split: if_splits)
  then have 1: "advances s s1"
    by (auto simp: and_then_Inr split: if_splits dest!: read_u16_advances read_u32_advances)
  from a len have "s' = s1\<lparr>mOffset := mOffset s1 + n\<rparr>"
    by (auto simp: readString_def Let_def split: if_splits option.splits)
  then have "advances s1 s'" by (simp add: advances_def)
  with 1 show ?thesis by (rule advances_trans)
qed

lemma read_value_advances: "read_value lib opCode s = Inr (v, s') \<Longrightarrow> advances s s'"
  by (auto simp: read_value_def and_then_Inr split: if_splits
      dest!: readString_advances read_u8_advances read_u16_advances read_u32_advances read_u64_advances)

lemma reading_None:
  "reading r S f = (None, S') \<longleftrightarrow> (\<exists>v s. r = Inr (v, s) \<and> f v (S\<lparr>stream := s\<rparr>) = (None, S'))"
  by (auto simp: reading_def split: sum.splits)

lemma looking_up_None:
  "looking_up r S f = (None, S') \<longleftrightarrow> (\<exists>v. r = Inr v \<and> f v = (None, S'))"
  by (auto simp: looking_up_def split: sum.splits)

lemma on_helper_None:
  "on_helper r S g = (None, S') \<longleftrightarrow> (\<exists>h. r = (None, h) \<and> S' = g (S\<lparr>helper := h\<rparr>))"
  by (cases r) (auto simp: on_helper_def split: option.splits)

lemma attribute_record_advances:
  assumes "attribute_record lib opCode S = (None, S')"
  shows "advances (stream S) (stream S')"
proof -
  from assms obtain id s1 v s2 where
    1: "read_u16 (stream S) = Inr (id, s1)" and
    2: "read_value lib opCode s1 = Inr (v, s2)" and
    3: "stream S' = s2"
    by (auto simp: attribute_record_def reading_None looking_up_None on_helper_None)
  with read_u16_advances[OF 1] read_value_advances[OF 2] show ?thesis
    by (auto intro: advances_trans)
qed

lemma skip_digits_advances:
  assumes "skip_digits opCode (x, S1) = (None, S')"
  shows "x = None \<and> advances (stream S1) (stream S')"
  using assms
  by (cases x) (auto simp: skip_digits_def split: if_splits sum.splits dest!: skip_advances)

lemma parse_record_advances:
  assumes "parse_record lib H opCode S = (None, S')"
  shows "advances (stream S) (stream S')"
proof -
  consider "opCode = 0" | "opCode = 1" | "opCode = 2" | "3 \<le> opCode \<and> opCode \<le> 10"
    | "opCode = 11" | "opCode = 15" | "opCode = 12"
    | "\<not> (opCode = 0 \<or> opCode = 1 \<or> opCode = 2 \<or> (3 \<le> opCode \<and> opCode \<le> 10) \<or> opCode = 11
         \<or> opCode = 15 \<or> opCode = 12)"
    by blast
  then show ?thesis
  proof cases
    case 1
    with assms show ?thesis
      by (auto simp: parse_record_def reading_None setCharSize_def advances_def
          dest!: read_u8_advances)
  next
    case 2
    with assms show ?thesis
      by (auto simp: parse_record_def reading_None looking_up_None on_helper_None
          split: if_splits dest!: read_u16_advances)
  next
    case 3
    with assms show ?thesis
      by (auto simp: parse_record_def reading_None looking_up_None on_helper_None
          split: if_splits dest!: read_u16_advances)
  next
    case 4
    obtain x S1 where a: "attribute_record lib opCode S = (x, S1)"
      by (cases "attribute_record lib opCode S")
    with 4 assms have s: "skip_digits opCode (x, S1) = (None, S')"
      by (auto simp: parse_record_def split: if_splits)
    from skip_digits_advances[OF s] a attribute_record_advances[of lib opCode S S1]
    show ?thesis by (auto intro: advances_trans)
  next
    case 5
    with assms show ?thesis
      by (auto simp: parse_record_def reading_None on_helper_None split: if_splits
          dest!: readString_advances)
  next
    case 6
    with assms show ?thesis
      by (auto simp: parse_record_def reading_None looking_up_None
          dest!: readString_advances read_u16_advances intro: advances_trans)
  next
    case 7
    with assms show ?thesis
      by (auto simp: parse_record_def split: sum.splits dest!: skipString_advances)
  next
    case 8
    with assms show ?thesis
      by (auto simp: parse_record_def split: if_splits)
  qed
qed

lemma parse_step_advances:
  assumes "parse_step lib H S = (None, S')"
  shows "mBuffer (stream S') = mBuffer (stream S) \<and> mOffset (stream S) < mOffset (stream S') \<and>
         mOffset (stream S) < getSize (mBuffer (stream S))"
proof -
  from assms obtain opCode s where
    1: "read_u8 (stream S) = Inr (opCode, s)" and
    2: "parse_record lib H (unat opCode) (S\<lparr>stream := s\<rparr>) = (None, S')"
    by (auto simp: parse_step_def reading_None)
  from parse_record_advances[OF 2] read_u8_advances[OF 1] show ?thesis
    by (auto simp: advances_def)
qed

text \<open>
  The \<^verbatim>\<open>while (!stream.isEof())\<close> loop: the exception that leaves it, if any, and the
  state of the locals then. It ends: a round that does not throw moves the offset
  forward, and no read moves it past the end of the buffer.
\<close>

function Parse_loop ::
  "platform \<Rightarrow> 'h XMLHandler \<Rightarrow> 'h ParseState \<Rightarrow> error option \<times> 'h ParseState" where
  "Parse_loop lib H S =
     (if isEof (stream S) then (None, S)
      else (case parse_step lib H S of
              (Some e, S') \<Rightarrow> (Some e, S')
            | (None, S') \<Rightarrow> Parse_loop lib H S'))"
  by pat_completeness auto
termination
  by (relation "measure (\<lambda>(lib, H, S). getSize (mBuffer (stream S)) - mOffset (stream S))")
     (auto dest!: parse_step_advances[OF sym])

declare Parse_loop.simps [simp del]

text \<open>
  The destructor \<^verbatim>\<open>~XMLHandlerHelper\<close>, which runs when \<open>Parse\<close> returns and when an
  exception leaves it: a start tag that is open is handed to the handler and closed. A
  destructor is \<^verbatim>\<open>noexcept\<close>: an exception of the handler that would leave it calls
  \<^verbatim>\<open>std::terminate\<close>. \<open>x\<close> is the exception that is leaving \<open>Parse\<close>, if any.
\<close>

definition escaped :: "error \<Rightarrow> error" where
  "escaped e = (if e = UndefinedBehaviour then UndefinedBehaviour else terminate_called)"

definition destroy_XMLHandlerHelper ::
  "'h XMLHandler \<Rightarrow> error option \<Rightarrow> 'h ParseState \<Rightarrow> error option \<times> 'h" where
  "destroy_XMLHandlerHelper H x S =
     (if x = Some UndefinedBehaviour \<or> \<not> mInTag (helper S) then (x, mHandler (helper S))
      else if dangling S then (Some UndefinedBehaviour, mHandler (helper S))
      else (case emitEndTag H (mCurrentTagName (helper S)) (helper S) of
              (Some e, h) \<Rightarrow> (Some (escaped e), mHandler h)
            | (None, h) \<Rightarrow> (x, mHandler h)))"

text \<open>
  \<open>Parse\<close>: the exception that leaves it, if any (\<open>terminate_called\<close> when the program is
  ended instead), and the state of the handler afterwards.
\<close>

definition Parse :: "platform \<Rightarrow> 'h XMLHandler \<Rightarrow> Buffer \<Rightarrow> 'h \<Rightarrow> error option \<times> 'h" where
  "Parse lib H buffer handler =
     (case Parse_loop lib H
             \<lparr>stream = new_Stream buffer, lookup = [], helper = new_XMLHandlerHelper handler,
              viewed = [], dangling = False\<rparr> of
        (x, S) \<Rightarrow> destroy_XMLHandlerHelper H x S)"

section \<open>BinaryXMLConverter::SerializeProject\<close>

lemma fold_err_cong [fundef_cong]:
  "xs = ys \<Longrightarrow> s = t \<Longrightarrow> (\<And>x u. x \<in> set ys \<Longrightarrow> f x u = g x u) \<Longrightarrow> fold_err f xs s = fold_err g ys t"
  by (induction ys arbitrary: xs s t) (auto split: sum.splits)

text \<open>\<^verbatim>\<open>getStringIndex\<close>: the position of the first name equal to \<open>name\<close>, as a \<^verbatim>\<open>uint16_t\<close>.\<close>

fun find_name :: "string list \<Rightarrow> string \<Rightarrow> nat option" where
  "find_name [] name = None"
| "find_name (n # ns) name = (if n = name then Some 0 else map_option Suc (find_name ns name))"

definition getStringIndex :: "string list \<Rightarrow> string \<Rightarrow> error + 16 word" where
  "getStringIndex names name =
     (case find_name names name of None \<Rightarrow> Inl NameNotFound | Some i \<Rightarrow> Inr (of_nat i))"

text \<open>\<^verbatim>\<open>buffer.append(FieldTypes::...)\<close>: the enumerator is one byte.\<close>

definition append_opcode :: "Buffer \<Rightarrow> nat \<Rightarrow> Buffer" where
  "append_opcode buffer opCode = Buffer_append_T buffer (le_bytes 1 opCode)"

text \<open>The visitor of \<open>WriteNode\<close> on the value of an attribute.\<close>

fun write_value :: "16 word \<Rightarrow> AttributeValue \<Rightarrow> Buffer \<Rightarrow> Buffer" where
  "write_value attrNameIndex (AV_bool v) buffer =
     Buffer_append_T (Buffer_append_T (append_opcode buffer 5) (bytes_u16 attrNameIndex))
       (le_bytes 1 (if v then 1 else 0))"
| "write_value attrNameIndex (AV_int32 v) buffer =
     Buffer_append_T (Buffer_append_T (append_opcode buffer 4) (bytes_u16 attrNameIndex)) (bytes_u32 v)"
| "write_value attrNameIndex (AV_uint32 v) buffer =
     Buffer_append_T (Buffer_append_T (append_opcode buffer 8) (bytes_u16 attrNameIndex)) (bytes_u32 v)"
| "write_value attrNameIndex (AV_int64 v) buffer =
     Buffer_append_T (Buffer_append_T (append_opcode buffer 7) (bytes_u16 attrNameIndex)) (bytes_u64 v)"
| "write_value attrNameIndex (AV_size_t v) buffer =
     Buffer_append_T (Buffer_append_T (append_opcode buffer 8) (bytes_u16 attrNameIndex))
       (bytes_u32 (ucast v))"
| "write_value attrNameIndex (AV_float v) buffer =
     Buffer_append_T
       (Buffer_append_T (Buffer_append_T (append_opcode buffer 9) (bytes_u16 attrNameIndex)) (bytes_u32 v))
       (bytes_u32 7)"
| "write_value attrNameIndex (AV_double v) buffer =
     Buffer_append_T
       (Buffer_append_T (Buffer_append_T (append_opcode buffer 10) (bytes_u16 attrNameIndex)) (bytes_u64 v))
       (bytes_u32 19)"
| "write_value attrNameIndex (AV_string v) buffer =
     Buffer_append
       (Buffer_append_T (Buffer_append_T (append_opcode buffer 3) (bytes_u16 attrNameIndex))
          (bytes_u32 (of_nat (length v))))
       v"

definition write_attribute :: "string list \<Rightarrow> Attribute \<Rightarrow> Buffer \<Rightarrow> error + Buffer" where
  "write_attribute names attr buffer =
     and_then (getStringIndex names (Name attr))
       (\<lambda>attrNameIndex. Inr (write_value attrNameIndex (Value attr) buffer))"

definition write_data :: "string \<Rightarrow> Buffer \<Rightarrow> Buffer" where
  "write_data data buffer =
     (if data \<noteq> []
      then Buffer_append (Buffer_append_T (append_opcode buffer 11) (bytes_u32 (of_nat (length data)))) data
      else buffer)"

fun WriteNode :: "string list \<Rightarrow> ProjectTreeNode \<Rightarrow> Buffer \<Rightarrow> error + Buffer" where
  "WriteNode names (ProjectTreeNode tagName attributes children parentIndex data) buffer =
     and_then (getStringIndex names tagName) (\<lambda>tagIndex.
     and_then (fold_err (write_attribute names) attributes
                 (Buffer_append_T (append_opcode buffer 1) (bytes_u16 tagIndex))) (\<lambda>b2.
     and_then (fold_err (WriteNode names) children (write_data data b2)) (\<lambda>b4.
       Inr (Buffer_append_T (append_opcode b4 2) (bytes_u16 tagIndex)))))"

text \<open>The loop of \<open>SerializeProject\<close> over the names; \<open>stringIndex\<close> is a \<^verbatim>\<open>uint16_t\<close>.\<close>

definition write_name :: "string \<Rightarrow> Buffer \<times> 16 word \<Rightarrow> Buffer \<times> 16 word" where
  "write_name name st =
     (Buffer_append
        (Buffer_append_T
           (Buffer_append_T (append_opcode (fst st) 15) (bytes_u16 (snd st)))
           (bytes_u16 (of_nat (length name))))
        name,
      snd st + 1)"

definition SerializeProject :: "string list \<Rightarrow> ProjectTreeNode \<Rightarrow> error + Buffer \<times> Buffer" where
  "SerializeProject names project =
     (let first = fst (fold write_name names
                         (Buffer_append_T (append_opcode new_Buffer 0) (le_bytes 1 1), 0))
      in and_then (WriteNode names project new_Buffer) (\<lambda>second. Inr (first, second)))"

section \<open>ReadProjectBlob and the constructor of AudacityProject\<close>

text \<open>\<^verbatim>\<open>SQLiteBlob::readToBuffer\<close>: the blob goes to the buffer in pieces of 8 KiB.\<close>

function readToBuffer :: "byte list \<Rightarrow> Buffer \<Rightarrow> Buffer" where
  "readToBuffer blob outputBuffer =
     (if blob = [] then outputBuffer
      else let chunkSize = min (length blob) (8 * 1024)
           in readToBuffer (drop chunkSize blob) (Buffer_append outputBuffer (take chunkSize blob)))"
  by pat_completeness auto
termination
  by (relation "measure (\<lambda>(blob, b). length blob)") (auto simp: Let_def)

declare readToBuffer.simps [simp del]

definition ReadProjectBlob :: "byte list \<Rightarrow> byte list \<Rightarrow> Buffer" where
  "ReadProjectBlob dict doc = readToBuffer doc (readToBuffer dict new_Buffer)"

text \<open>
  The constructor of \<open>AudacityProject\<close> on the blob of the project: the parser state is
  created, \<open>Parse\<close> runs with the project as its handler, and the parser state is
  dropped. \<^verbatim>\<open>mProjectNode\<close> then is the tree that the open nodes were part of, if any
  was left open.
\<close>

definition new_AudacityProject :: AudacityProject where
  "new_AudacityProject =
     \<lparr>mProjectNode = None, mReusableStringsCache = [], mStringCache = [], mWaveBlocks = [],
      mSequences = [], mClips = [], mWaveTracks = [],
      mParserState = Some \<lparr>NodesStack = [], DeserializedNodeStack = []\<rparr>\<rparr>"

definition drop_ParserState :: "AudacityProject \<Rightarrow> AudacityProject" where
  "drop_ParserState P =
     (case mParserState P of
        None \<Rightarrow> P
      | Some ps \<Rightarrow>
          (case NodesStack ps of
             [] \<Rightarrow> P\<lparr>mParserState := None\<rparr>
           | node # nodes \<Rightarrow> P\<lparr>mProjectNode := Some (plug node nodes), mParserState := None\<rparr>))"

definition load_AudacityProject :: "platform \<Rightarrow> Buffer \<Rightarrow> error + AudacityProject" where
  "load_AudacityProject lib blob =
     (case Parse lib (AudacityProject_handler lib) blob new_AudacityProject of
        (Some e, P) \<Rightarrow> Inl e
      | (None, P) \<Rightarrow> Inr (drop_ParserState P))"

section \<open>Reading from a stream\<close>

subsection \<open>Little-endian round trip\<close>

lemma length_le_bytes [simp]: "length (le_bytes n v) = n"
  by (induction n arbitrary: v) auto

lemma le_nat_le_bytes: "le_nat (le_bytes n v) = v mod 256 ^ n"
proof (induction n arbitrary: v)
  case 0
  then show ?case by simp
next
  case (Suc n)
  have "le_nat (le_bytes (Suc n) v) = v mod 256 + 256 * ((v div 256) mod 256 ^ n)"
    by (simp add: Suc)
  also have "\<dots> = v mod 256 ^ Suc n"
    by (simp add: mod_mult2_eq)
  finally show ?case .
qed

lemma le_nat_bound: "le_nat bs < 256 ^ length bs"
proof (induction bs)
  case Nil
  then show ?case by simp
next
  case (Cons b bs)
  have "(of_char b :: nat) < 256" by simp
  then have "of_char b + 256 * le_nat bs < 256 + 256 * le_nat bs" by simp
  also have "\<dots> = 256 * (le_nat bs + 1)" by simp
  also have "\<dots> \<le> 256 * 256 ^ length bs"
    using Cons by (intro mult_le_mono2) simp
  finally show ?case by simp
qed

lemma u8_roundtrip [simp]: "(of_nat (le_nat (le_bytes 1 (unat (w :: 8 word)))) :: 8 word) = w"
proof -
  have "unat w < 256" using unsigned_less[of w, where ?'a = nat] by simp
  then show ?thesis by (simp add: le_nat_le_bytes)
qed

lemma u8_mod [simp]: "(of_nat (unat (w :: 8 word) mod 256) :: 8 word) = w"
proof -
  have "unat w < 256" using unsigned_less[of w, where ?'a = nat] by simp
  then show ?thesis by simp
qed

lemma u16_roundtrip [simp]: "(of_nat (le_nat (bytes_u16 w)) :: 16 word) = w"
proof -
  have "unat w < 256 ^ 2" using unsigned_less[of w, where ?'a = nat] by simp
  then show ?thesis by (simp add: bytes_u16_def le_nat_le_bytes)
qed

lemma u32_roundtrip [simp]: "(of_nat (le_nat (bytes_u32 w)) :: 32 word) = w"
proof -
  have "unat w < 256 ^ 4" using unsigned_less[of w, where ?'a = nat] by simp
  then show ?thesis by (simp add: bytes_u32_def le_nat_le_bytes)
qed

lemma u64_roundtrip [simp]: "(of_nat (le_nat (bytes_u64 w)) :: 64 word) = w"
proof -
  have "unat w < 256 ^ 8" using unsigned_less[of w, where ?'a = nat] by simp
  then show ?thesis by (simp add: bytes_u64_def le_nat_le_bytes)
qed

lemma length_bytes [simp]:
  "length (bytes_u16 w) = 2" "length (bytes_u32 v) = 4" "length (bytes_u64 u) = 8"
  by (simp_all add: bytes_u16_def bytes_u32_def bytes_u64_def)

subsection \<open>How many bytes a read returns\<close>

lemma length_read_loop:
  "length c = BUFFER_SIZE \<Longrightarrow> off < BUFFER_SIZE \<Longrightarrow> length (read_loop c off n) = n"
proof (induction c off n rule: read_loop.induct)
  case (1 chunk offset bytesLeft)
  show ?case
  proof (cases "bytesLeft = 0")
    case True
    then show ?thesis by (subst read_loop.simps) simp
  next
    case False
    define chunkSize where "chunkSize = min (BUFFER_SIZE - offset) bytesLeft"
    have IH: "length (read_loop chunk 0 (bytesLeft - chunkSize)) = bytesLeft - chunkSize"
      using "1.IH"[OF _ chunkSize_def "1.prems"(1)] False "1.prems" BUFFER_SIZE_pos
      by (simp add: chunkSize_def)
    have "read_loop chunk offset bytesLeft
        = take chunkSize (drop offset chunk) @ read_loop chunk 0 (bytesLeft - chunkSize)"
      using False "1.prems" by (subst read_loop.simps) (simp add: Let_def chunkSize_def)
    then show ?thesis
      using IH "1.prems" by (auto simp: chunkSize_def)
  qed
qed

lemma length_Buffer_read:
  assumes "buffer_ok b" "offset \<le> getSize b"
  shows "length (Buffer_read b offset sz) = min sz (getSize b - offset)"
proof (cases "sz = 0 \<or> offset = getSize b")
  case True
  then show ?thesis by (auto simp: Buffer_read_def Let_def)
next
  case False
  then have lt: "offset < getSize b" using assms by simp
  have i: "offset div BUFFER_SIZE < length (mChunks b)"
    by (rule getSize_chunk_index[OF assms(1) lt])
  have len: "length (mChunks b ! (offset div BUFFER_SIZE)) = BUFFER_SIZE"
    using assms(1) i by (simp add: buffer_ok_def list_all_length)
  have m: "offset - BUFFER_SIZE * (offset div BUFFER_SIZE) = offset mod BUFFER_SIZE"
    by (simp add: minus_mult_div_eq_mod)
  have "Buffer_read b offset sz = read_loop (mChunks b ! (offset div BUFFER_SIZE))
      (offset mod BUFFER_SIZE) (min sz (getSize b - offset))"
    using False lt by (auto simp: Buffer_read_def Let_def m min_def)
  then show ?thesis
    using length_read_loop[OF len, of "offset mod BUFFER_SIZE"] BUFFER_SIZE_pos by simp
qed

lemma length_Buffer_read_T:
  assumes "buffer_ok b" "0 < sz"
  shows "length (Buffer_read_T b sz offset) = (if offset + sz \<le> getSize b then sz else 0)"
proof (cases "offset + sz \<le> getSize b")
  case False
  then show ?thesis by (simp add: Buffer_read_T_def)
next
  case True
  then have lt: "offset < getSize b" using assms by simp
  have i: "offset div BUFFER_SIZE < length (mChunks b)"
    by (rule getSize_chunk_index[OF assms(1) lt])
  have len: "length (mChunks b ! (offset div BUFFER_SIZE)) = BUFFER_SIZE"
    using assms(1) i by (simp add: buffer_ok_def list_all_length)
  have m: "offset - BUFFER_SIZE * (offset div BUFFER_SIZE) = offset mod BUFFER_SIZE"
    by (simp add: minus_mult_div_eq_mod)
  show ?thesis
  proof (cases "BUFFER_SIZE < offset mod BUFFER_SIZE + sz")
    case c: True
    have le: "offset mod BUFFER_SIZE \<le> getSize b"
      using lt mod_less_eq_dividend[of offset BUFFER_SIZE] by linarith
    have "offset mod BUFFER_SIZE + sz \<le> getSize b"
      using True mod_less_eq_dividend[of offset BUFFER_SIZE] by linarith
    then have "length (Buffer_read b (offset mod BUFFER_SIZE) sz) = sz"
      using length_Buffer_read[OF assms(1) le, of sz] by simp
    then show ?thesis using True c by (simp add: Buffer_read_T_def Let_def m)
  next
    case False
    then show ?thesis using True len by (simp add: Buffer_read_T_def Let_def m)
  qed
qed

subsection \<open>Streams over a buffer\<close>

definition stream_ok :: "Stream \<Rightarrow> bool" where
  "stream_ok s \<longleftrightarrow>
     buffer_ok (mBuffer s) \<and> mBufferSize s = getSize (mBuffer s) \<and> mOffset s \<le> getSize (mBuffer s)"

definition advance :: "nat \<Rightarrow> Stream \<Rightarrow> Stream" where
  "advance n s = s\<lparr>mOffset := mOffset s + n\<rparr>"

definition remaining :: "Stream \<Rightarrow> byte list" where
  "remaining s = drop (mOffset s) (content (mBuffer s))"

text \<open>A run of \<open>n\<close> bytes from the offset of the stream lies in one chunk.\<close>

definition fits :: "Stream \<Rightarrow> nat \<Rightarrow> bool" where
  "fits s n \<longleftrightarrow> mOffset s mod BUFFER_SIZE + n \<le> BUFFER_SIZE"

lemma advance_simps [simp]:
  "mBuffer (advance n s) = mBuffer s" "mOffset (advance n s) = mOffset s + n"
  "mBufferSize (advance n s) = mBufferSize s" "mCharSize (advance n s) = mCharSize s"
  "advance m (advance n s) = advance (n + m) s"
  by (simp_all add: advance_def add.assoc)

lemma advance_0 [simp]: "advance 0 s = s"
  by (simp add: advance_def)

lemma remaining_advance [simp]: "remaining (advance n s) = drop n (remaining s)"
  by (simp add: remaining_def add.commute)

lemma length_remaining: "stream_ok s \<Longrightarrow> length (remaining s) = getSize (mBuffer s) - mOffset s"
  by (simp add: remaining_def stream_ok_def length_content)

lemma stream_ok_advance: "stream_ok s \<Longrightarrow> n \<le> length (remaining s) \<Longrightarrow> stream_ok (advance n s)"
  using length_remaining[of s] by (auto simp: stream_ok_def)

lemma fits_advance:
  assumes "fits s n" "k + m \<le> n" "0 < m"
  shows "fits (advance k s) m"
proof -
  have "mOffset s mod BUFFER_SIZE + k < BUFFER_SIZE" using assms by (simp add: fits_def)
  then have "(mOffset s + k) mod BUFFER_SIZE = mOffset s mod BUFFER_SIZE + k"
    by (metis add.commute mod_add_left_eq mod_less)
  then show ?thesis using assms by (simp add: fits_def)
qed

lemma fits_less: "fits s n \<Longrightarrow> m \<le> n \<Longrightarrow> fits s m"
  by (simp add: fits_def)

lemma fits_single_chunk:
  "stream_ok s \<Longrightarrow> getSize (mBuffer s) \<le> BUFFER_SIZE \<Longrightarrow> n \<le> length (remaining s) \<Longrightarrow> 0 < n \<Longrightarrow> fits s n"
  using length_remaining[of s] by (auto simp: fits_def stream_ok_def)

lemma Stream_read_fails:
  "getSize (mBuffer s) < mOffset s + sz \<Longrightarrow> 0 < sz \<Longrightarrow> Stream_read sz s = Inl overflow_error"
  by (simp add: Stream_read_def Buffer_read_T_def)

lemma Stream_read_returns:
  "stream_ok s \<Longrightarrow> 0 < sz \<Longrightarrow> mOffset s + sz \<le> getSize (mBuffer s) \<Longrightarrow>
   Stream_read sz s = Inr (Buffer_read_T (mBuffer s) sz (mOffset s), advance sz s)"
  using length_Buffer_read_T[of "mBuffer s" sz "mOffset s"]
  by (simp add: Stream_read_def stream_ok_def advance_def Let_def)

lemma Stream_read_at:
  assumes ok: "stream_ok s" and r: "remaining s = xs @ rest" and l: "length xs = sz" "0 < sz"
    and f: "fits s sz"
  shows "Stream_read sz s = Inr (xs, advance sz s)"
proof -
  have le: "mOffset s + sz \<le> getSize (mBuffer s)"
    using length_remaining[OF ok] r l by simp
  have "Buffer_read_T (mBuffer s) sz (mOffset s) = take sz (drop (mOffset s) (content (mBuffer s)))"
    using ok l f le by (intro Buffer_read_T_in_chunk) (auto simp: stream_ok_def fits_def)
  also have "\<dots> = xs" using r l by (simp add: remaining_def)
  finally show ?thesis using Stream_read_returns[OF ok l(2) le] by simp
qed

lemma read_u8_at:
  assumes "stream_ok s" "remaining s = le_bytes 1 (unat w) @ rest"
  shows "read_u8 s = Inr (w, advance 1 s)"
proof -
  have "fits s 1" using BUFFER_SIZE_pos by (simp add: fits_def less_eq_Suc_le[symmetric])
  from Stream_read_at[OF assms(1,2) _ _ this] show ?thesis by (simp add: read_u8_def)
qed

lemma read_u16_at:
  assumes "stream_ok s" "remaining s = bytes_u16 w @ rest" "fits s 2"
  shows "read_u16 s = Inr (w, advance 2 s)"
  using Stream_read_at[OF assms(1,2) _ _ assms(3)] by (simp add: read_u16_def)

lemma read_u32_at:
  assumes "stream_ok s" "remaining s = bytes_u32 w @ rest" "fits s 4"
  shows "read_u32 s = Inr (w, advance 4 s)"
  using Stream_read_at[OF assms(1,2) _ _ assms(3)] by (simp add: read_u32_def)

lemma read_u64_at:
  assumes "stream_ok s" "remaining s = bytes_u64 w @ rest" "fits s 8"
  shows "read_u64 s = Inr (w, advance 8 s)"
  using Stream_read_at[OF assms(1,2) _ _ assms(3)] by (simp add: read_u64_def)

definition single_chunk :: "Stream \<Rightarrow> bool" where
  "single_chunk s \<longleftrightarrow> stream_ok s \<and> getSize (mBuffer s) \<le> BUFFER_SIZE"

lemma single_chunk_advance:
  "single_chunk s \<Longrightarrow> n \<le> length (remaining s) \<Longrightarrow> single_chunk (advance n s)"
  by (simp add: single_chunk_def stream_ok_advance)

lemma single_chunk_fits:
  "single_chunk s \<Longrightarrow> n \<le> length (remaining s) \<Longrightarrow> fits s n"
proof -
  assume a: "single_chunk s" "n \<le> length (remaining s)"
  then have "mOffset s + n \<le> BUFFER_SIZE"
    using length_remaining[of s] by (auto simp: stream_ok_def single_chunk_def)
  moreover have "mOffset s mod BUFFER_SIZE \<le> mOffset s" by simp
  ultimately show ?thesis unfolding fits_def by linarith
qed

lemma unat_le_nat_u8: "length bs \<le> 1 \<Longrightarrow> unat (of_nat (le_nat bs) :: 8 word) = le_nat bs"
proof -
  assume "length bs \<le> 1"
  then have "(256::nat) ^ length bs \<le> 256 ^ 1" by (intro power_increasing) simp_all
  then have "le_nat bs < 2 ^ 8" using le_nat_bound[of bs] by simp
  then show ?thesis by (simp add: unsigned_of_nat take_bit_nat_eq_self)
qed

lemma unat_le_nat_u16: "length bs \<le> 2 \<Longrightarrow> unat (of_nat (le_nat bs) :: 16 word) = le_nat bs"
proof -
  assume "length bs \<le> 2"
  then have "(256::nat) ^ length bs \<le> 256 ^ 2" by (intro power_increasing) simp_all
  then have "le_nat bs < 2 ^ 16" using le_nat_bound[of bs] by simp
  then show ?thesis by (simp add: unsigned_of_nat take_bit_nat_eq_self)
qed

lemma unat_le_nat_u32: "length bs \<le> 4 \<Longrightarrow> unat (of_nat (le_nat bs) :: 32 word) = le_nat bs"
proof -
  assume "length bs \<le> 4"
  then have "(256::nat) ^ length bs \<le> 256 ^ 4" by (intro power_increasing) simp_all
  then have "le_nat bs < 2 ^ 32" using le_nat_bound[of bs] by simp
  then show ?thesis by (simp add: unsigned_of_nat take_bit_nat_eq_self)
qed

text \<open>The operations of the stream, on the bytes that remain.\<close>

lemma Stream_read_remaining:
  assumes ok: "stream_ok s" and sz: "0 < sz" and f: "sz \<le> length (remaining s) \<Longrightarrow> fits s sz"
  shows "Stream_read sz s =
    (if length (remaining s) < sz then Inl overflow_error
     else Inr (take sz (remaining s), advance sz s))"
proof (cases "length (remaining s) < sz")
  case True
  then have "getSize (mBuffer s) < mOffset s + sz"
    using length_remaining[OF ok] by simp
  then show ?thesis using True Stream_read_fails[of s sz] sz by simp
next
  case False
  have "remaining s = take sz (remaining s) @ drop sz (remaining s)" by simp
  from Stream_read_at[OF ok this _ sz] f False show ?thesis by simp
qed

lemma fits_1: "fits s 1"
  using BUFFER_SIZE_pos by (simp add: fits_def less_eq_Suc_le[symmetric])

lemma read_u8_remaining:
  assumes "stream_ok s"
  shows "read_u8 s =
    (if length (remaining s) < 1 then Inl overflow_error
     else Inr (of_nat (le_nat (take 1 (remaining s))), advance 1 s))"
  using Stream_read_remaining[OF assms, of 1] fits_1[of s] by (simp add: read_u8_def)

lemma read_u16_remaining:
  assumes "stream_ok s" "2 \<le> length (remaining s) \<Longrightarrow> fits s 2"
  shows "read_u16 s =
    (if length (remaining s) < 2 then Inl overflow_error
     else Inr (of_nat (le_nat (take 2 (remaining s))), advance 2 s))"
  using Stream_read_remaining[OF assms(1), of 2] assms(2) by (simp add: read_u16_def)

lemma read_u32_remaining:
  assumes "stream_ok s" "4 \<le> length (remaining s) \<Longrightarrow> fits s 4"
  shows "read_u32 s =
    (if length (remaining s) < 4 then Inl overflow_error
     else Inr (of_nat (le_nat (take 4 (remaining s))), advance 4 s))"
  using Stream_read_remaining[OF assms(1), of 4] assms(2) by (simp add: read_u32_def)

lemma read_u64_remaining:
  assumes "stream_ok s" "8 \<le> length (remaining s) \<Longrightarrow> fits s 8"
  shows "read_u64 s =
    (if length (remaining s) < 8 then Inl overflow_error
     else Inr (of_nat (le_nat (take 8 (remaining s))), advance 8 s))"
  using Stream_read_remaining[OF assms(1), of 8] assms(2) by (simp add: read_u64_def)

lemma skip_remaining:
  assumes "stream_ok s"
  shows "skip n s = (if length (remaining s) < n then Inl overflow_error else Inr (advance n s))"
  using assms length_remaining[OF assms]
  by (auto simp: skip_def Let_def stream_ok_def advance_def)

text \<open>A string with a length prefix of \<open>w\<close> bytes, read from the bytes \<open>r\<close>.\<close>

definition decode_string :: "platform \<Rightarrow> nat \<Rightarrow> nat \<Rightarrow> byte list \<Rightarrow> error + string \<times> nat" where
  "decode_string lib cs w r =
     (if cs = 0 then Inl CharSizeNotSet
      else if length r < w then Inl overflow_error
      else
        let n = le_nat (take w r) in
        if length r - w < n then Inl overflow_error
        else
          let body = take n (drop w r) in
          if cs = 1 then Inr (body, w + n)
          else if cs = 2 then
            (case utf16to8 lib (take (n div 2 * 2) body) of
               None \<Rightarrow> Inl invalid_utf
             | Some result \<Rightarrow> Inr (result, w + n))
          else if cs = 4 then
            (case utf32to8 lib (take (n div 4 * 4) body) of
               None \<Rightarrow> Inl invalid_utf
             | Some result \<Rightarrow> Inr (result, w + n))
          else Inl InvalidCharSize)"

definition string_fits :: "Stream \<Rightarrow> nat \<Rightarrow> bool" where
  "string_fits s w \<longleftrightarrow>
     (w \<le> length (remaining s) \<longrightarrow>
        fits s (w + min (le_nat (take w (remaining s))) (length (remaining s) - w)))"

lemma Buffer_read_remaining:
  assumes ok: "stream_ok s" and f: "mOffset s mod BUFFER_SIZE + min n (length (remaining s)) \<le> BUFFER_SIZE"
  shows "Buffer_read (mBuffer s) (mOffset s) n = take n (remaining s)"
proof -
  have "Buffer_read (mBuffer s) (mOffset s) n = take n (drop (mOffset s) (content (mBuffer s)))"
    using ok f length_remaining[OF ok]
    by (intro Buffer_read_in_chunk) (auto simp: stream_ok_def)
  then show ?thesis by (simp add: remaining_def)
qed

lemma fits_advance0:
  assumes "fits s (k + m)" "0 < k"
  shows "mOffset (advance k s) mod BUFFER_SIZE + m \<le> BUFFER_SIZE"
proof (cases "m = 0")
  case True
  then show ?thesis using BUFFER_SIZE_pos by (simp add: less_imp_le)
next
  case False
  then have "fits (advance k s) m" using assms by (intro fits_advance[of s "k + m"]) simp_all
  then show ?thesis by (simp add: fits_def)
qed

lemma readString_body:
  assumes ok: "stream_ok s1" and r: "remaining s1 = drop w r" "w \<le> length r"
    and f: "mOffset s1 mod BUFFER_SIZE + min n (length r - w) \<le> BUFFER_SIZE"
  shows "Buffer_read (mBuffer s1) (mOffset s1) n = take n (drop w r) \<and>
         (n \<noteq> length (Buffer_read (mBuffer s1) (mOffset s1) n) \<longleftrightarrow> length r - w < n)"
proof -
  have "Buffer_read (mBuffer s1) (mOffset s1) n = take n (remaining s1)"
    using f r by (intro Buffer_read_remaining[OF ok]) simp
  then show ?thesis using r by auto
qed

lemma readString_remaining:
  assumes ok: "stream_ok s" and f: "string_fits s w" and w: "w = (if useInt then 4 else 2)"
  shows "readString lib useInt s =
    and_then (decode_string lib (mCharSize s) w (remaining s)) (\<lambda>(v, k). Inr (v, advance k s))"
proof (cases "mCharSize s = 0 \<or> length (remaining s) < w")
  case True
  then show ?thesis
    using w ok read_u32_remaining[of s] read_u16_remaining[of s] Stream_read_fails[of s]
      length_remaining[OF ok]
    by (auto simp: readString_def decode_string_def read_u32_def read_u16_def)
next
  case False
  define r where "r = remaining s"
  define n where "n = le_nat (take w r)"
  have wl: "w \<le> length r" "0 < w" using False w by (auto simp: r_def)
  have fit: "fits s (w + min n (length r - w))"
    using f wl by (simp add: string_fits_def r_def n_def)
  then have fw: "fits s w" by (rule fits_less) simp
  have pre: "(if useInt then and_then (read_u32 s) (\<lambda>(n, s'). Inr (unat n, s'))
              else and_then (read_u16 s) (\<lambda>(n, s'). Inr (unat n, s'))) = Inr (n, advance w s)"
    using w wl fw read_u32_remaining[OF ok] read_u16_remaining[OF ok]
    by (auto simp: r_def n_def unat_le_nat_u32 unat_le_nat_u16)
  have ok1: "stream_ok (advance w s)" using wl by (intro stream_ok_advance[OF ok]) (simp add: r_def)
  have body: "Buffer_read (mBuffer s) (mOffset s + w) n = take n (drop w r)"
    using readString_body[OF ok1, of w r n] fits_advance0[OF fit wl(2)] wl by (simp add: r_def)
  have ne: "(n \<noteq> length (take n (drop w r))) = (length r - w < n)"
    by auto
  have adv: "advance w s\<lparr>mOffset := mOffset s + w + n\<rparr> = advance (w + n) s"
    by (simp add: advance_def add.assoc)
  show ?thesis
    using False wl
    by (simp add: readString_def pre body ne del: length_take length_drop add: decode_string_def Let_def r_def[symmetric] n_def[symmetric] adv
        split: option.splits)
qed

lemma skipString_remaining:
  assumes ok: "stream_ok s" and f: "4 \<le> length (remaining s) \<Longrightarrow> fits s 4"
  shows "skipString True s =
    (if length (remaining s) < 4 \<or> length (remaining s) - 4 < le_nat (take 4 (remaining s))
     then Inl overflow_error else Inr (advance (4 + le_nat (take 4 (remaining s))) s))"
proof (cases "length (remaining s) < 4")
  case True
  then show ?thesis using read_u32_remaining[OF ok] f by (simp add: skipString_def)
next
  case False
  then have ok1: "stream_ok (advance 4 s)" by (intro stream_ok_advance[OF ok]) simp
  show ?thesis
    using False read_u32_remaining[OF ok] f skip_remaining[OF ok1]
    by (simp add: skipString_def unat_le_nat_u32)
qed

lemma read_u8_single:
  "single_chunk s \<Longrightarrow> read_u8 s =
    (if length (remaining s) < 1 then Inl overflow_error
     else Inr (of_nat (le_nat (take 1 (remaining s))), advance 1 s))"
  by (rule read_u8_remaining) (simp add: single_chunk_def)

lemma read_u16_single:
  "single_chunk s \<Longrightarrow> read_u16 s =
    (if length (remaining s) < 2 then Inl overflow_error
     else Inr (of_nat (le_nat (take 2 (remaining s))), advance 2 s))"
  by (rule read_u16_remaining) (simp_all add: single_chunk_def single_chunk_fits)

lemma read_u32_single:
  "single_chunk s \<Longrightarrow> read_u32 s =
    (if length (remaining s) < 4 then Inl overflow_error
     else Inr (of_nat (le_nat (take 4 (remaining s))), advance 4 s))"
  by (rule read_u32_remaining) (simp_all add: single_chunk_def single_chunk_fits)

lemma read_u64_single:
  "single_chunk s \<Longrightarrow> read_u64 s =
    (if length (remaining s) < 8 then Inl overflow_error
     else Inr (of_nat (le_nat (take 8 (remaining s))), advance 8 s))"
  by (rule read_u64_remaining) (simp_all add: single_chunk_def single_chunk_fits)

lemma skip_single:
  "single_chunk s \<Longrightarrow>
   skip n s = (if length (remaining s) < n then Inl overflow_error else Inr (advance n s))"
  by (rule skip_remaining) (simp add: single_chunk_def)

lemma readString_single:
  "single_chunk s \<Longrightarrow> readString lib useInt s =
    and_then (decode_string lib (mCharSize s) (if useInt then 4 else 2) (remaining s))
      (\<lambda>(v, k). Inr (v, advance k s))"
  by (rule readString_remaining)
     (auto simp: single_chunk_def string_fits_def intro!: single_chunk_fits)

lemma skipString_single:
  "single_chunk s \<Longrightarrow> skipString True s =
    (if length (remaining s) < 4 \<or> length (remaining s) - 4 < le_nat (take 4 (remaining s))
     then Inl overflow_error else Inr (advance (4 + le_nat (take 4 (remaining s))) s))"
  by (rule skipString_remaining) (simp_all add: single_chunk_def single_chunk_fits)

lemma decode_string_size:
  "decode_string lib cs w r = Inr (v, k) \<Longrightarrow> k \<le> length r \<and> w \<le> k"
  by (auto simp: decode_string_def Let_def split: if_splits option.splits)

section \<open>The wire format, read from a list of bytes\<close>

text \<open>
  What a record hands to the helper: a start tag, an attribute of the start tag that is
  open, character data, an end tag.
\<close>

datatype wire_item =
    Item_start string
  | Item_attribute string AttributeValue
  | Item_data string
  | Item_end string

text \<open>
  The state of a reader of the wire format: the char size, the names defined so far,
  whether a start tag is open, and, for the views that the helper of \<open>Parse\<close> keeps, the
  indices of the names that the open start tag refers to and whether one of those names
  has been moved or redefined since.
\<close>

record reader =
  rd_charSize :: nat
  rd_names :: "string list"
  rd_inTag :: bool
  rd_viewed :: "nat list"
  rd_dangling :: bool

definition new_reader :: reader where
  "new_reader =
     \<lparr>rd_charSize = 0, rd_names = [], rd_inTag = False, rd_viewed = [], rd_dangling = False\<rparr>"

text \<open>
  The value of an attribute record with the opcode \<open>opCode\<close> at the head of the bytes
  \<open>bs\<close>, and the number of its bytes.
\<close>

definition decode_value ::
  "platform \<Rightarrow> nat \<Rightarrow> nat \<Rightarrow> byte list \<Rightarrow> error + AttributeValue \<times> nat" where
  "decode_value lib cs opCode bs =
     (if opCode = 3 then
        (case decode_string lib cs 4 bs of Inl e \<Rightarrow> Inl e | Inr (v, k) \<Rightarrow> Inr (AV_string v, k))
      else if opCode = 4 \<or> opCode = 6 then
        (if length bs < 4 then Inl overflow_error else Inr (AV_int32 (of_nat (le_nat (take 4 bs))), 4))
      else if opCode = 5 then
        (if length bs < 1 then Inl overflow_error
         else if of_char (hd bs) = (0 :: nat) then Inr (AV_bool False, 1)
         else if of_char (hd bs) = (1 :: nat) then Inr (AV_bool True, 1)
         else Inl UndefinedBehaviour)
      else if opCode = 7 then
        (if length bs < 8 then Inl overflow_error else Inr (AV_int64 (of_nat (le_nat (take 8 bs))), 8))
      else if opCode = 8 then
        (if length bs < 4 then Inl overflow_error else Inr (AV_uint32 (of_nat (le_nat (take 4 bs))), 4))
      else if opCode = 9 then
        (if length bs < 4 then Inl overflow_error else Inr (AV_float (of_nat (le_nat (take 4 bs))), 4))
      else
        (if length bs < 8 then Inl overflow_error else Inr (AV_double (of_nat (le_nat (take 8 bs))), 8)))"

text \<open>
  A \<open>Name\<close> record defines the next id or redefines the last one; what
  \<^verbatim>\<open>IdsLookup::store\<close> does with any other id is undefined behaviour.
\<close>

definition store_name :: "string list \<Rightarrow> nat \<Rightarrow> string \<Rightarrow> error + string list" where
  "store_name names i v =
     (if i = length names then Inr (names @ [v])
      else if Suc i = length names then Inr (names[i := v])
      else Inl UndefinedBehaviour)"

text \<open>
  One record at the head of the bytes (which are not empty): what it hands to the helper
  and then either the exception it ends with or the number of its bytes and the reader
  after it. The record is malformed, and an exception is thrown,
  \<^item> when the opcode is none of 0 to 12 and 15;
  \<^item> when the bytes end before the end of a field of fixed size (the width of
    \<open>CharSize\<close>, an id, the length of a string, a value, the four bytes after a \<open>Float\<close> or
    a \<open>Double\<close>), or before the end of a string as its length declares it;
  \<^item> when the id of a \<open>StartTag\<close>, an \<open>EndTag\<close> or an attribute has no name yet;
  \<^item> when an attribute comes while no start tag is open;
  \<^item> when a string is to be read (\<open>String\<close>, \<open>Data\<close>, \<open>Name\<close>) while the char size is 0, or
    is not 1, 2 or 4, or the bytes of the string cannot be transcoded.
  The width of a \<open>CharSize\<close> record is taken as it is. The behaviour is undefined when a
  \<open>Bool\<close> is neither 0 nor 1, when the id of a \<open>Name\<close> is neither the next one nor the last
  one, and when a start tag is handed to the handler after a name it refers to has been
  moved or redefined.
\<close>

definition decode_record ::
  "platform \<Rightarrow> reader \<Rightarrow> byte list \<Rightarrow> wire_item list \<times> (error + nat \<times> reader)" where
  "decode_record lib rd bytes =
     (let opCode = (of_char (hd bytes) :: nat);
          p = tl bytes;
          ident = le_nat (take 2 p)
      in
      if opCode = 0 then
        (if p = [] then ([], Inl overflow_error)
         else ([], Inr (2, rd\<lparr>rd_charSize := of_char (hd p)\<rparr>)))
      else if opCode = 1 \<or> opCode = 2 then
        (if length p < 2 then ([], Inl overflow_error)
         else if length (rd_names rd) \<le> ident then ([], Inl out_of_range)
         else if rd_inTag rd \<and> rd_dangling rd then ([], Inl UndefinedBehaviour)
         else if opCode = 1 then
           ([Item_start (rd_names rd ! ident)],
            Inr (3, rd\<lparr>rd_inTag := True, rd_viewed := [ident], rd_dangling := False\<rparr>))
         else
           ([Item_end (rd_names rd ! ident)],
            Inr (3, rd\<lparr>rd_inTag := False, rd_viewed := [], rd_dangling := False\<rparr>)))
      else if 3 \<le> opCode \<and> opCode \<le> 10 then
        (if length p < 2 then ([], Inl overflow_error)
         else if length (rd_names rd) \<le> ident then ([], Inl out_of_range)
         else
           (case decode_value lib (rd_charSize rd) opCode (drop 2 p) of
              Inl e \<Rightarrow> ([], Inl e)
            | Inr (v, k) \<Rightarrow>
                if \<not> rd_inTag rd then ([], Inl AttributeOutsideTag)
                else if opCode = 9 \<or> opCode = 10 then
                  (if length p < 2 + k + 4
                   then ([Item_attribute (rd_names rd ! ident) v], Inl overflow_error)
                   else ([Item_attribute (rd_names rd ! ident) v],
                         Inr (3 + k + 4, rd\<lparr>rd_viewed := rd_viewed rd @ [ident]\<rparr>)))
                else ([Item_attribute (rd_names rd ! ident) v],
                      Inr (3 + k, rd\<lparr>rd_viewed := rd_viewed rd @ [ident]\<rparr>))))
      else if opCode = 11 then
        (case decode_string lib (rd_charSize rd) 4 p of
           Inl e \<Rightarrow> ([], Inl e)
         | Inr (v, k) \<Rightarrow>
             if rd_inTag rd \<and> rd_dangling rd then ([], Inl UndefinedBehaviour)
             else ([Item_data v],
                   Inr (1 + k, rd\<lparr>rd_inTag := False, rd_viewed := [], rd_dangling := False\<rparr>)))
      else if opCode = 15 then
        (if length p < 2 then ([], Inl overflow_error)
         else
           (case decode_string lib (rd_charSize rd) 2 (drop 2 p) of
              Inl e \<Rightarrow> ([], Inl e)
            | Inr (v, k) \<Rightarrow>
                (case store_name (rd_names rd) ident v of
                   Inl e \<Rightarrow> ([], Inl e)
                 | Inr names' \<Rightarrow>
                     ([], Inr (3 + k,
                        rd\<lparr>rd_names := names',
                           rd_dangling :=
                             (rd_dangling rd \<or>
                              rd_inTag rd \<and>
                              (if ident = length (rd_names rd)
                               then push_back_moves lib (length (rd_names rd))
                               else ident \<in> set (rd_viewed rd)))\<rparr>)))))
      else if opCode = 12 then
        (if length p < 4 \<or> length p - 4 < le_nat (take 4 p) then ([], Inl overflow_error)
         else ([], Inr (5 + le_nat (take 4 p), rd)))
      else ([], Inl UnsupportedOpcode))"

lemma decode_string_consumed: "decode_string lib cs w r = Inr (v, k) \<Longrightarrow> w \<le> k"
  by (auto simp: decode_string_def Let_def split: if_splits option.splits)

lemma decode_record_consumed:
  "decode_record lib rd bytes = (items, Inr (k, rd')) \<Longrightarrow> 0 < k"
  by (auto simp: decode_record_def Let_def split: if_splits sum.splits prod.splits)

text \<open>
  The records of the bytes, one after the other: all that they hand to the helper, the
  exception of the record that is malformed, if one is, and whether the views of the
  reader are dangling at the end.
\<close>

function decode :: "platform \<Rightarrow> reader \<Rightarrow> byte list \<Rightarrow> wire_item list \<times> error option \<times> bool" where
  "decode lib rd bytes =
     (if bytes = [] then ([], None, rd_dangling rd)
      else (case decode_record lib rd bytes of
              (items, Inl e) \<Rightarrow> (items, Some e, rd_dangling rd)
            | (items, Inr (k, rd')) \<Rightarrow>
                (case decode lib rd' (drop k bytes) of
                   (rest, x, d) \<Rightarrow> (items @ rest, x, d))))"
  by pat_completeness auto
termination
  by (relation "measure (\<lambda>(lib, rd, bytes). length bytes)")
     (auto dest!: decode_record_consumed[OF sym])

declare decode.simps [simp del]

subsection \<open>The helper, on what the records hand to it\<close>

text \<open>
  The start tag that the helper keeps until the next record that is not an attribute:
  its name and the attributes so far.
\<close>

type_synonym pending = "(string \<times> Attribute list) option"

definition flush_pending :: "'h XMLHandler \<Rightarrow> pending \<Rightarrow> 'h \<Rightarrow> error option \<times> 'h" where
  "flush_pending H pend h =
     (case pend of None \<Rightarrow> (None, h) | Some (t, as) \<Rightarrow> HandleTagStart H t as h)"

text \<open>
  One item: the exception of the handler, if it throws, the pending start tag and the
  state of the handler afterwards.
\<close>

fun run_item :: "'h XMLHandler \<Rightarrow> wire_item \<Rightarrow> pending \<Rightarrow> 'h \<Rightarrow> error option \<times> pending \<times> 'h" where
  "run_item H (Item_start n) pend h =
     (case flush_pending H pend h of
        (Some e, h') \<Rightarrow> (Some e, pend, h')
      | (None, h') \<Rightarrow> (None, Some (n, []), h'))"
| "run_item H (Item_attribute n v) pend h =
     (case pend of
        None \<Rightarrow> (None, None, h)
      | Some (t, as) \<Rightarrow> (None, Some (t, as @ [\<lparr>Name = n, Value = v\<rparr>]), h))"
| "run_item H (Item_data v) pend h =
     (case flush_pending H pend h of
        (Some e, h') \<Rightarrow> (Some e, pend, h')
      | (None, h') \<Rightarrow> (case HandleCharData H v h' of (x, h'') \<Rightarrow> (x, None, h'')))"
| "run_item H (Item_end n) pend h =
     (case flush_pending H pend h of
        (Some e, h') \<Rightarrow> (Some e, pend, h')
      | (None, h') \<Rightarrow> (case HandleTagEnd H n h' of (x, h'') \<Rightarrow> (x, None, h'')))"

fun run_items :: "'h XMLHandler \<Rightarrow> wire_item list \<Rightarrow> pending \<Rightarrow> 'h \<Rightarrow> error option \<times> pending \<times> 'h" where
  "run_items H [] pend h = (None, pend, h)"
| "run_items H (i # items) pend h =
     (case run_item H i pend h of
        (Some e, pend', h') \<Rightarrow> (Some e, pend', h')
      | (None, pend', h') \<Rightarrow> run_items H items pend' h')"

text \<open>
  The end of \<open>Parse\<close>, with the exception \<open>x\<close> if one is leaving it: a start tag that is
  still pending is handed to the handler and closed, and an exception of the handler
  then ends the program.
\<close>

definition finish :: "'h XMLHandler \<Rightarrow> error option \<Rightarrow> bool \<Rightarrow> pending \<Rightarrow> 'h \<Rightarrow> error option \<times> 'h" where
  "finish H x d pend h =
     (if x = Some UndefinedBehaviour then (x, h)
      else
        (case pend of
           None \<Rightarrow> (x, h)
         | Some (t, as) \<Rightarrow>
             if d then (Some UndefinedBehaviour, h)
             else
               (case HandleTagStart H t as h of
                  (Some e, h') \<Rightarrow> (Some (escaped e), h')
                | (None, h') \<Rightarrow>
                    (case HandleTagEnd H t h' of
                       (Some e, h'') \<Rightarrow> (Some (escaped e), h'')
                     | (None, h'') \<Rightarrow> (x, h'')))))"

definition deliver ::
  "'h XMLHandler \<Rightarrow> wire_item list \<Rightarrow> error option \<Rightarrow> bool \<Rightarrow> pending \<Rightarrow> 'h \<Rightarrow> error option \<times> 'h" where
  "deliver H items x d pend h =
     (case run_items H items pend h of
        (Some e, pend', h') \<Rightarrow> finish H (Some e) False pend' h'
      | (None, pend', h') \<Rightarrow> finish H x d pend' h')"

text \<open>
  The reading of a document: its records are decoded, and what they hand to the helper
  is delivered to the handler up to the first exception.
\<close>

definition read_document :: "platform \<Rightarrow> 'h XMLHandler \<Rightarrow> byte list \<Rightarrow> 'h \<Rightarrow> error option \<times> 'h" where
  "read_document lib H bytes handler =
     (case decode lib new_reader bytes of
        (items, x, d) \<Rightarrow> deliver H items x d None handler)"

section \<open>Parse reads the wire format\<close>

definition reader_of :: "'h ParseState \<Rightarrow> reader" where
  "reader_of S =
     \<lparr>rd_charSize = mCharSize (stream S), rd_names = lookup S, rd_inTag = mInTag (helper S),
      rd_viewed = viewed S, rd_dangling = dangling S\<rparr>"

definition pend_of :: "'h XMLHandlerHelper \<Rightarrow> pending" where
  "pend_of h = (if mInTag h then Some (mCurrentTagName h, mAttributes h) else None)"

text \<open>Outside a start tag the helper holds no attributes.\<close>

definition helper_ok :: "'h XMLHandlerHelper \<Rightarrow> bool" where
  "helper_ok h \<longleftrightarrow> (\<not> mInTag h \<longrightarrow> mAttributes h = [])"

lemma reading_simps [simp]:
  "reading (Inl e) S f = (Some e, S)"
  "reading (Inr (v, s)) S f = f v (S\<lparr>stream := s\<rparr>)"
  by (simp_all add: reading_def)

lemma looking_up_simps [simp]:
  "looking_up (Inl e) S g = (Some e, S)"
  "looking_up (Inr v) S g = g v"
  by (simp_all add: looking_up_def)

lemma on_helper_simps [simp]:
  "on_helper (Some e, h) S k = (Some e, S\<lparr>helper := h\<rparr>)"
  "on_helper (None, h) S k = (None, k (S\<lparr>helper := h\<rparr>))"
  by (simp_all add: on_helper_def)

lemma IdsLookup_store_name: "IdsLookup_store ids i v = store_name ids (unat i) v"
  by (auto simp: IdsLookup_store_def store_name_def Let_def)

lemma single_chunk_setCharSize [simp]: "single_chunk (setCharSize n s) = single_chunk s"
  by (simp add: single_chunk_def stream_ok_def setCharSize_def)

lemma remaining_setCharSize [simp]: "remaining (setCharSize n s) = remaining s"
  by (simp add: remaining_def setCharSize_def)

lemma mCharSize_setCharSize [simp]: "mCharSize (setCharSize n s) = n"
  by (simp add: setCharSize_def)

lemma unat_of_char [simp]: "unat (of_nat (of_char c) :: 8 word) = of_char c"
proof -
  have "(of_char c :: nat) < 2 ^ 8" by simp
  then show ?thesis by (simp add: unsigned_of_nat take_bit_nat_eq_self)
qed

lemma le_nat_take_1: "r \<noteq> [] \<Longrightarrow> le_nat (take (Suc 0) r) = of_char (hd r)"
  by (cases r) simp_all

lemma flushIfInTag_pending:
  "flushIfInTag H h =
     (case flush_pending H (pend_of h) (mHandler h) of
        (Some e, x) \<Rightarrow> (Some e, h\<lparr>mHandler := x\<rparr>)
      | (None, x) \<Rightarrow>
          (None, if mInTag h then h\<lparr>mHandler := x, mAttributes := [], mInTag := False\<rparr> else h))"
  by (auto simp: flushIfInTag_def flushStartTag_def flush_pending_def pend_of_def
      split: prod.splits option.splits)

text \<open>What the end of a round means for the end of \<open>Parse\<close>.\<close>

lemma destroy_finish:
  "destroy_XMLHandlerHelper H x S =
     finish H x (dangling S) (pend_of (helper S)) (mHandler (helper S))"
  by (auto simp: destroy_XMLHandlerHelper_def finish_def pend_of_def emitEndTag_def
      flushIfInTag_def flushStartTag_def split: prod.splits option.splits)

text \<open>
  A round of \<open>Parse\<close> after the opcode, set against the record and the items it hands to
  the helper: \<open>y\<close> is the exception of the handler, if it throws.
\<close>

definition round_matches ::
  "error option \<times> 'h ParseState \<Rightarrow> 'h ParseState \<Rightarrow> byte list \<Rightarrow>
   (error + nat \<times> reader) \<Rightarrow> error option \<Rightarrow> pending \<Rightarrow> 'h \<Rightarrow> bool" where
  "round_matches r S bytes out y pend' h' \<longleftrightarrow>
     pend_of (helper (snd r)) = pend' \<and> mHandler (helper (snd r)) = h' \<and>
     (case y of
        Some e \<Rightarrow> fst r = Some e \<and> \<not> flushes_dangling (snd r)
      | None \<Rightarrow>
          (case out of
             Inl e \<Rightarrow> fst r = Some e \<and> dangling (snd r) = dangling S
           | Inr (k, rd') \<Rightarrow>
               fst r = None \<and> single_chunk (stream (snd r)) \<and> helper_ok (helper (snd r)) \<and>
               remaining (stream (snd r)) = drop k bytes \<and> reader_of (snd r) = rd'))"

lemma run_items_single [simp]: "run_items H [i] pend h = run_item H i pend h"
  by (cases "run_item H i pend h" rule: prod_cases3) (auto split: option.splits)

lemma emitStartTag_sim:
  assumes "helper_ok h" and "run_item H (Item_start n) (pend_of h) (mHandler h) = (y, pend', h')"
  shows "\<exists>hh. emitStartTag H n h = (y, hh) \<and> pend_of hh = pend' \<and> mHandler hh = h' \<and>
           helper_ok hh \<and> (y \<noteq> None \<and> mInTag hh \<longrightarrow> mInTag h) \<and> (y = None \<longrightarrow> mInTag hh)"
proof (cases "mInTag h")
  case True
  obtain x hx where f: "HandleTagStart H (mCurrentTagName h) (mAttributes h) (mHandler h) = (x, hx)"
    by (cases "HandleTagStart H (mCurrentTagName h) (mAttributes h) (mHandler h)")
  show ?thesis
    using assms True f
    by (cases x)
       (auto simp: emitStartTag_def flushIfInTag_def flushStartTag_def flush_pending_def
        pend_of_def helper_ok_def)
next
  case False
  then show ?thesis
    using assms
    by (auto simp: emitStartTag_def flushIfInTag_def flush_pending_def pend_of_def helper_ok_def)
qed

lemma emitEndTag_sim:
  assumes "helper_ok h" and "run_item H (Item_end n) (pend_of h) (mHandler h) = (y, pend', h')"
  shows "\<exists>hh. emitEndTag H n h = (y, hh) \<and> pend_of hh = pend' \<and> mHandler hh = h' \<and>
           helper_ok hh \<and> (y \<noteq> None \<and> mInTag hh \<longrightarrow> mInTag h) \<and> (y = None \<longrightarrow> \<not> mInTag hh)"
proof (cases "mInTag h")
  case True
  obtain x hx where f: "HandleTagStart H (mCurrentTagName h) (mAttributes h) (mHandler h) = (x, hx)"
    by (cases "HandleTagStart H (mCurrentTagName h) (mAttributes h) (mHandler h)")
  obtain x2 hx2 where e: "HandleTagEnd H n hx = (x2, hx2)"
    by (cases "HandleTagEnd H n hx")
  show ?thesis
    using assms True f e
    by (cases x)
       (auto simp: emitEndTag_def flushIfInTag_def flushStartTag_def flush_pending_def
        pend_of_def helper_ok_def)
next
  case False
  obtain x2 hx2 where e: "HandleTagEnd H n (mHandler h) = (x2, hx2)"
    by (cases "HandleTagEnd H n (mHandler h)")
  show ?thesis
    using assms False e
    by (auto simp: emitEndTag_def flushIfInTag_def flush_pending_def pend_of_def helper_ok_def)
qed

lemma writeData_sim:
  assumes "helper_ok h" and "run_item H (Item_data v) (pend_of h) (mHandler h) = (y, pend', h')"
  shows "\<exists>hh. writeData H v h = (y, hh) \<and> pend_of hh = pend' \<and> mHandler hh = h' \<and>
           helper_ok hh \<and> (y \<noteq> None \<and> mInTag hh \<longrightarrow> mInTag h) \<and> (y = None \<longrightarrow> \<not> mInTag hh)"
proof (cases "mInTag h")
  case True
  obtain x hx where f: "HandleTagStart H (mCurrentTagName h) (mAttributes h) (mHandler h) = (x, hx)"
    by (cases "HandleTagStart H (mCurrentTagName h) (mAttributes h) (mHandler h)")
  obtain x2 hx2 where e: "HandleCharData H v hx = (x2, hx2)"
    by (cases "HandleCharData H v hx")
  show ?thesis
    using assms True f e
    by (cases x)
       (auto simp: writeData_def flushIfInTag_def flushStartTag_def flush_pending_def
        pend_of_def helper_ok_def)
next
  case False
  obtain x2 hx2 where e: "HandleCharData H v (mHandler h) = (x2, hx2)"
    by (cases "HandleCharData H v (mHandler h)")
  show ?thesis
    using assms False e
    by (auto simp: writeData_def flushIfInTag_def flush_pending_def pend_of_def helper_ok_def)
qed

lemma addAttr_sim:
  assumes "mInTag h"
  shows "\<exists>hh. addAttr n v h = (None, hh) \<and> mInTag hh \<and> mHandler hh = mHandler h \<and>
           run_item H (Item_attribute n v) (pend_of h) (mHandler h) = (None, pend_of hh, mHandler h)"
  using assms by (auto simp: addAttr_def pend_of_def)

lemma record_tag:
  assumes sc: "single_chunk (stream S)" and hk: "helper_ok (helper S)"
    and op: "of_char c = (1 :: nat) \<or> of_char c = (2 :: nat)"
    and d: "decode_record lib (reader_of S) (c # remaining (stream S)) = (items, out)"
    and r: "run_items H items (pend_of (helper S)) (mHandler (helper S)) = (y, pend', h')"
  shows "round_matches (parse_record lib H (of_char c) S) S (c # remaining (stream S)) out y pend' h'"
proof -
  define p where "p = remaining (stream S)"
  define ident where "ident = le_nat (take 2 p)"
  consider "length p < 2" | "\<not> length p < 2" "length (lookup S) \<le> ident"
    | "\<not> length p < 2" "\<not> length (lookup S) \<le> ident" "mInTag (helper S) \<and> dangling S"
    | "\<not> length p < 2" "\<not> length (lookup S) \<le> ident" "\<not> (mInTag (helper S) \<and> dangling S)"
    by blast
  then show ?thesis
  proof cases
    case 1
    then show ?thesis
      using op d r sc
      by (auto simp: round_matches_def decode_record_def Let_def parse_record_def read_u16_single
          p_def)
  next
    case 2
    then show ?thesis
      using op d r sc
      by (auto simp: round_matches_def decode_record_def Let_def parse_record_def read_u16_single
          IdsLookup_get_def unat_le_nat_u16 reader_of_def p_def ident_def)
  next
    case 3
    then show ?thesis
      using op d r sc
      by (auto simp: round_matches_def decode_record_def Let_def parse_record_def read_u16_single
          IdsLookup_get_def unat_le_nat_u16 reader_of_def flushes_dangling_def p_def ident_def)
  next
    case 4
    have sc2: "single_chunk (advance 2 (stream S))"
      using 4(1) by (intro single_chunk_advance[OF sc]) (simp add: p_def)
    define name where "name = lookup S ! ident"
    have rec: "parse_record lib H (of_char c) S =
        (if of_char c = (1 :: nat)
         then on_helper (emitStartTag H name (helper S)) (S\<lparr>stream := advance 2 (stream S)\<rparr>)
                (\<lambda>S2. S2\<lparr>viewed := [ident], dangling := False\<rparr>)
         else on_helper (emitEndTag H name (helper S)) (S\<lparr>stream := advance 2 (stream S)\<rparr>)
                (\<lambda>S2. S2\<lparr>viewed := [], dangling := False\<rparr>))"
      using op 4 sc
      by (auto simp: parse_record_def read_u16_single IdsLookup_get_def unat_le_nat_u16
          flushes_dangling_def p_def ident_def name_def)
    show ?thesis
    proof (cases "of_char c = (1 :: nat)")
      case True
      have io: "items = [Item_start name]"
        "out = Inr (3, (reader_of S)\<lparr>rd_inTag := True, rd_viewed := [ident], rd_dangling := False\<rparr>)"
        using d True 4
        by (auto simp: decode_record_def Let_def reader_of_def p_def ident_def name_def)
      from r io have "run_item H (Item_start name) (pend_of (helper S)) (mHandler (helper S)) = (y, pend', h')"
        by (simp only: run_items_single)
      from emitStartTag_sim[OF hk this] obtain hh where hh:
        "emitStartTag H name (helper S) = (y, hh)" "pend_of hh = pend'" "mHandler hh = h'"
        "helper_ok hh" "y \<noteq> None \<and> mInTag hh \<longrightarrow> mInTag (helper S)" "y = None \<longrightarrow> mInTag hh"
        by blast
      have res: "parse_record lib H (of_char c) S =
          on_helper (y, hh) (S\<lparr>stream := advance 2 (stream S)\<rparr>)
            (\<lambda>S2. S2\<lparr>viewed := [ident], dangling := False\<rparr>)"
        using rec True hh(1) by simp
      show ?thesis
        unfolding res using hh(2-) io 4 sc2
        by (cases y)
           (auto simp: round_matches_def flushes_dangling_def reader_of_def p_def)
    next
      case False
      then have c2: "of_char c = (2 :: nat)" using op by simp
      have io: "items = [Item_end name]"
        "out = Inr (3, (reader_of S)\<lparr>rd_inTag := False, rd_viewed := [], rd_dangling := False\<rparr>)"
        using d c2 4
        by (auto simp: decode_record_def Let_def reader_of_def p_def ident_def name_def)
      from r io have "run_item H (Item_end name) (pend_of (helper S)) (mHandler (helper S)) = (y, pend', h')"
        by (simp only: run_items_single)
      from emitEndTag_sim[OF hk this] obtain hh where hh:
        "emitEndTag H name (helper S) = (y, hh)" "pend_of hh = pend'" "mHandler hh = h'"
        "helper_ok hh" "y \<noteq> None \<and> mInTag hh \<longrightarrow> mInTag (helper S)" "y = None \<longrightarrow> \<not> mInTag hh"
        by blast
      have res: "parse_record lib H (of_char c) S =
          on_helper (y, hh) (S\<lparr>stream := advance 2 (stream S)\<rparr>)
            (\<lambda>S2. S2\<lparr>viewed := [], dangling := False\<rparr>)"
        using rec c2 hh(1) by simp
      show ?thesis
        unfolding res using hh(2-) io 4 sc2
        by (cases y)
           (auto simp: round_matches_def flushes_dangling_def reader_of_def p_def)
    qed
  qed
qed

lemma u8_is_0: "(of_nat (of_char c) :: 8 word) = 0 \<longleftrightarrow> (of_char c :: nat) = 0"
  by (metis unat_of_char unat_0 word_unat_eq_iff)

lemma u8_is_1: "(of_nat (of_char c) :: 8 word) = 1 \<longleftrightarrow> (of_char c :: nat) = 1"
  by (metis unat_of_char unat_1 word_unat_eq_iff)

lemma drop_5_Cons: "drop (5 + n) (c # r) = drop (4 + n) r"
proof -
  have "5 + n = Suc (4 + n)" by simp
  then show ?thesis by (simp only: drop_Suc_Cons)
qed

lemma decode_value_size:
  "decode_value lib cs opCode bs = Inr (v, k) \<Longrightarrow> k \<le> length bs"
  by (cases bs) (auto simp: decode_value_def split: if_splits sum.splits dest: decode_string_size)

lemma read_value_single:
  assumes sc: "single_chunk s" and op: "3 \<le> opCode" "opCode \<le> 10"
  shows "read_value lib opCode s =
    (case decode_value lib (mCharSize s) opCode (remaining s) of
       Inl e \<Rightarrow> Inl e
     | Inr (v, k) \<Rightarrow> Inr (v, advance k s))"
proof -
  consider "opCode = 3" | "opCode = 4" | "opCode = 5" | "opCode = 6" | "opCode = 7"
    | "opCode = 8" | "opCode = 9" | "opCode = 10"
    using op by linarith
  then show ?thesis
  proof cases
    case 1
    then show ?thesis
      using sc
      by (cases "decode_string lib (mCharSize s) 4 (remaining s)")
         (auto simp: read_value_def decode_value_def readString_single)
  next
    case 2
    then show ?thesis using sc by (simp add: read_value_def decode_value_def read_u32_single)
  next
    case 3
    show ?thesis
    proof (cases "remaining s")
      case Nil
      then show ?thesis using 3 sc by (simp add: read_value_def decode_value_def read_u8_single)
    next
      case (Cons b bs)
      then show ?thesis
        using 3 sc
        by (simp add: read_value_def decode_value_def read_u8_single u8_is_0 u8_is_1)
    qed
  next
    case 4
    then show ?thesis using sc by (simp add: read_value_def decode_value_def read_u32_single)
  next
    case 5
    then show ?thesis using sc by (simp add: read_value_def decode_value_def read_u64_single)
  next
    case 6
    then show ?thesis using sc by (simp add: read_value_def decode_value_def read_u32_single)
  next
    case 7
    then show ?thesis using sc by (simp add: read_value_def decode_value_def read_u32_single)
  next
    case 8
    then show ?thesis using sc by (simp add: read_value_def decode_value_def read_u64_single)
  qed
qed

lemma record_charsize:
  assumes sc: "single_chunk (stream S)" and hk: "helper_ok (helper S)"
    and op: "of_char c = (0 :: nat)"
    and d: "decode_record lib (reader_of S) (c # remaining (stream S)) = (items, out)"
    and r: "run_items H items (pend_of (helper S)) (mHandler (helper S)) = (y, pend', h')"
  shows "round_matches (parse_record lib H (of_char c) S) S (c # remaining (stream S)) out y pend' h'"
proof (cases "remaining (stream S)")
  case Nil
  then show ?thesis
    using op d r sc
    by (auto simp: round_matches_def decode_record_def Let_def parse_record_def read_u8_single)
next
  case (Cons b bs)
  then have sc1: "single_chunk (advance 1 (stream S))"
    by (intro single_chunk_advance[OF sc]) simp
  show ?thesis
    using Cons op d r sc sc1 hk
    by (auto simp: round_matches_def decode_record_def Let_def parse_record_def read_u8_single
        reader_of_def)
qed

lemma record_other:
  assumes op: "of_char c = (13 :: nat) \<or> of_char c = (14 :: nat) \<or> (15 :: nat) < of_char c"
    and d: "decode_record lib (reader_of S) (c # remaining (stream S)) = (items, out)"
    and r: "run_items H items (pend_of (helper S)) (mHandler (helper S)) = (y, pend', h')"
  shows "round_matches (parse_record lib H (of_char c) S) S (c # remaining (stream S)) out y pend' h'"
  using op d r
  by (auto simp: round_matches_def decode_record_def Let_def parse_record_def)

lemma record_raw:
  assumes sc: "single_chunk (stream S)" and hk: "helper_ok (helper S)"
    and op: "of_char c = (12 :: nat)"
    and d: "decode_record lib (reader_of S) (c # remaining (stream S)) = (items, out)"
    and r: "run_items H items (pend_of (helper S)) (mHandler (helper S)) = (y, pend', h')"
  shows "round_matches (parse_record lib H (of_char c) S) S (c # remaining (stream S)) out y pend' h'"
proof (cases "length (remaining (stream S)) < 4 \<or>
              length (remaining (stream S)) - 4 < le_nat (take 4 (remaining (stream S)))")
  case True
  then show ?thesis
    using op d r sc
    by (auto simp: round_matches_def decode_record_def Let_def parse_record_def skipString_single)
next
  case False
  then have "4 + le_nat (take 4 (remaining (stream S))) \<le> length (remaining (stream S))"
    by linarith
  then have sc1: "single_chunk (advance (4 + le_nat (take 4 (remaining (stream S)))) (stream S))"
    by (intro single_chunk_advance[OF sc])
  show ?thesis
    using False op d r sc sc1 hk
    by (auto simp: round_matches_def decode_record_def Let_def parse_record_def skipString_single
        reader_of_def drop_5_Cons)
qed

lemma record_data:
  assumes sc: "single_chunk (stream S)" and hk: "helper_ok (helper S)"
    and op: "of_char c = (11 :: nat)"
    and d: "decode_record lib (reader_of S) (c # remaining (stream S)) = (items, out)"
    and r: "run_items H items (pend_of (helper S)) (mHandler (helper S)) = (y, pend', h')"
  shows "round_matches (parse_record lib H (of_char c) S) S (c # remaining (stream S)) out y pend' h'"
proof (cases "decode_string lib (mCharSize (stream S)) 4 (remaining (stream S))")
  case (Inl e)
  then show ?thesis
    using op d r sc
    by (auto simp: round_matches_def decode_record_def Let_def parse_record_def readString_single
        reader_of_def)
next
  case (Inr vk)
  obtain v k where vk: "vk = (v, k)" by (cases vk)
  have sck: "single_chunk (advance k (stream S))"
    using decode_string_size[of lib _ 4 "remaining (stream S)" v k] Inr vk
    by (intro single_chunk_advance[OF sc]) simp
  show ?thesis
  proof (cases "mInTag (helper S) \<and> dangling S")
    case True
    then show ?thesis
      using op d r sc Inr vk
      by (auto simp: round_matches_def decode_record_def Let_def parse_record_def readString_single
          reader_of_def flushes_dangling_def)
  next
    case False
    have rec: "parse_record lib H (of_char c) S =
        on_helper (writeData H v (helper S)) (S\<lparr>stream := advance k (stream S)\<rparr>)
          (\<lambda>S2. S2\<lparr>viewed := [], dangling := False\<rparr>)"
      using op sc Inr vk False
      by (auto simp: parse_record_def readString_single flushes_dangling_def)
    have io: "items = [Item_data v]"
      "out = Inr (1 + k, (reader_of S)\<lparr>rd_inTag := False, rd_viewed := [], rd_dangling := False\<rparr>)"
      using d op Inr vk False
      by (auto simp: decode_record_def Let_def reader_of_def)
    from r io have "run_item H (Item_data v) (pend_of (helper S)) (mHandler (helper S)) = (y, pend', h')"
      by (simp only: run_items_single)
    from writeData_sim[OF hk this] obtain hh where hh:
      "writeData H v (helper S) = (y, hh)" "pend_of hh = pend'" "mHandler hh = h'"
      "helper_ok hh" "y \<noteq> None \<and> mInTag hh \<longrightarrow> mInTag (helper S)" "y = None \<longrightarrow> \<not> mInTag hh"
      by blast
    have res: "parse_record lib H (of_char c) S =
        on_helper (y, hh) (S\<lparr>stream := advance k (stream S)\<rparr>)
          (\<lambda>S2. S2\<lparr>viewed := [], dangling := False\<rparr>)"
      using rec hh(1) by simp
    show ?thesis
      unfolding res using hh(2-) io False sck
      by (cases y) (auto simp: round_matches_def flushes_dangling_def reader_of_def)
  qed
qed

lemma record_name:
  assumes sc: "single_chunk (stream S)" and hk: "helper_ok (helper S)"
    and op: "of_char c = (15 :: nat)"
    and d: "decode_record lib (reader_of S) (c # remaining (stream S)) = (items, out)"
    and r: "run_items H items (pend_of (helper S)) (mHandler (helper S)) = (y, pend', h')"
  shows "round_matches (parse_record lib H (of_char c) S) S (c # remaining (stream S)) out y pend' h'"
proof (cases "length (remaining (stream S)) < 2")
  case True
  then show ?thesis
    using op d r sc
    by (auto simp: round_matches_def decode_record_def Let_def parse_record_def read_u16_single)
next
  case False
  then have sc2: "single_chunk (advance 2 (stream S))"
    by (intro single_chunk_advance[OF sc]) simp
  show ?thesis
  proof (cases "decode_string lib (mCharSize (stream S)) 2 (drop 2 (remaining (stream S)))")
    case (Inl e)
    then show ?thesis
      using op d r sc sc2 False
      by (auto simp: round_matches_def decode_record_def Let_def parse_record_def read_u16_single
          readString_single reader_of_def)
  next
    case (Inr vk)
    obtain v k where vk: "vk = (v, k)" by (cases vk)
    have "k \<le> length (drop 2 (remaining (stream S)))"
      using decode_string_size[of lib _ 2 "drop 2 (remaining (stream S))" v k] Inr vk by simp
    then have sck: "single_chunk (advance (2 + k) (stream S))"
      using False by (intro single_chunk_advance[OF sc]) simp
    show ?thesis
    proof (cases "store_name (lookup S) (le_nat (take 2 (remaining (stream S)))) v")
      case (Inl e)
      then show ?thesis
        using op d r sc sc2 False Inr vk
        by (auto simp: round_matches_def decode_record_def Let_def parse_record_def read_u16_single
            readString_single reader_of_def IdsLookup_store_name unat_le_nat_u16)
    next
      case st: (Inr names')
      have dr: "drop (k + 3) (c # remaining (stream S)) = drop (Suc (Suc k)) (remaining (stream S))"
        by (simp add: numeral_3_eq_3)
      show ?thesis
        using op d r sc sc2 sck False Inr vk st hk dr
        by (auto simp: round_matches_def decode_record_def Let_def parse_record_def read_u16_single
            readString_single reader_of_def IdsLookup_store_name unat_le_nat_u16
            store_invalidates_def add.commute)
    qed
  qed
qed

lemma skip_digits_simps [simp]:
  "skip_digits opCode (Some e, S) = (Some e, S)"
  "skip_digits opCode (None, S) =
     (if opCode = 9 \<or> opCode = 10
      then (case skip 4 (stream S) of Inl e \<Rightarrow> (Some e, S) | Inr s \<Rightarrow> (None, S\<lparr>stream := s\<rparr>))
      else (None, S))"
  by (simp_all add: skip_digits_def)

lemma drop_3_Cons: "drop (3 + n) (c # r) = drop (2 + n) r"
proof -
  have "3 + n = Suc (2 + n)" by simp
  then show ?thesis by (simp only: drop_Suc_Cons)
qed

lemma record_attribute:
  assumes sc: "single_chunk (stream S)" and hk: "helper_ok (helper S)"
    and op: "3 \<le> (of_char c :: nat)" "(of_char c :: nat) \<le> 10"
    and d: "decode_record lib (reader_of S) (c # remaining (stream S)) = (items, out)"
    and r: "run_items H items (pend_of (helper S)) (mHandler (helper S)) = (y, pend', h')"
  shows "round_matches (parse_record lib H (of_char c) S) S (c # remaining (stream S)) out y pend' h'"
proof -
  define p where "p = remaining (stream S)"
  define ident where "ident = le_nat (take 2 p)"
  define opc where "opc = (of_char c :: nat)"
  have opc: "3 \<le> opc" "opc \<le> 10" using op by (simp_all add: opc_def)
  have pr: "parse_record lib H opc S = skip_digits opc (attribute_record lib opc S)"
    using opc by (simp add: parse_record_def)
  have dr: "decode_record lib (reader_of S) (c # p) =
      (if length p < 2 then ([], Inl overflow_error)
       else if length (lookup S) \<le> ident then ([], Inl out_of_range)
       else
         (case decode_value lib (mCharSize (stream S)) opc (drop 2 p) of
            Inl e \<Rightarrow> ([], Inl e)
          | Inr (v, k) \<Rightarrow>
              if \<not> mInTag (helper S) then ([], Inl AttributeOutsideTag)
              else if opc = 9 \<or> opc = 10 then
                (if length p < 2 + k + 4
                 then ([Item_attribute (lookup S ! ident) v], Inl overflow_error)
                 else ([Item_attribute (lookup S ! ident) v],
                       Inr (3 + k + 4, (reader_of S)\<lparr>rd_viewed := viewed S @ [ident]\<rparr>)))
              else ([Item_attribute (lookup S ! ident) v],
                    Inr (3 + k, (reader_of S)\<lparr>rd_viewed := viewed S @ [ident]\<rparr>))))"
    using op
    by (auto simp: decode_record_def Let_def opc_def ident_def reader_of_def
        split: sum.splits prod.splits)
  note d' = d[folded p_def, unfolded dr]
  consider "length p < 2" | "\<not> length p < 2" "length (lookup S) \<le> ident"
    | "\<not> length p < 2" "\<not> length (lookup S) \<le> ident"
    by blast
  then show ?thesis
  proof cases
    case 1
    then have "attribute_record lib opc S = (Some overflow_error, S)"
      using sc by (simp add: attribute_record_def read_u16_single p_def)
    then show ?thesis
      using 1 d' r
      by (auto simp: round_matches_def pr opc_def[symmetric] p_def[symmetric])
  next
    case 2
    then have "attribute_record lib opc S = (Some out_of_range, S\<lparr>stream := advance 2 (stream S)\<rparr>)"
      using sc
      by (simp add: attribute_record_def read_u16_single p_def IdsLookup_get_def unat_le_nat_u16
          ident_def)
    then show ?thesis
      using 2 d' r
      by (auto simp: round_matches_def pr opc_def[symmetric] p_def[symmetric])
  next
    case 3
    have sc2: "single_chunk (advance 2 (stream S))"
      using 3(1) by (intro single_chunk_advance[OF sc]) (simp add: p_def)
    define name where "name = lookup S ! ident"
    have ar: "attribute_record lib opc S =
        reading (read_value lib opc (advance 2 (stream S))) (S\<lparr>stream := advance 2 (stream S)\<rparr>)
          (\<lambda>v S2. on_helper (addAttr name v (helper S2)) S2
                      (\<lambda>S3. S3\<lparr>viewed := viewed S3 @ [ident]\<rparr>))"
      using 3 sc
      by (simp add: attribute_record_def read_u16_single p_def IdsLookup_get_def unat_le_nat_u16
          ident_def name_def)
    show ?thesis
    proof (cases "decode_value lib (mCharSize (stream S)) opc (drop 2 p)")
      case (Inl e)
      then have "attribute_record lib opc S = (Some e, S\<lparr>stream := advance 2 (stream S)\<rparr>)"
        using read_value_single[OF sc2 opc, of lib] by (simp add: ar p_def)
      then show ?thesis
        using 3 Inl d' r
        by (auto simp: round_matches_def pr opc_def[symmetric] p_def[symmetric])
    next
      case (Inr vk)
      obtain v k where vk: "vk = (v, k)" by (cases vk)
      have kl: "k \<le> length p - 2"
        using decode_value_size[of lib _ opc "drop 2 p" v k] Inr vk by simp
      have rv: "read_value lib opc (advance 2 (stream S)) = Inr (v, advance (2 + k) (stream S))"
        using read_value_single[OF sc2 opc, of lib] Inr vk by (simp add: p_def)
      have sck: "single_chunk (advance (2 + k) (stream S))"
        using kl 3(1) by (intro single_chunk_advance[OF sc]) (simp add: p_def)
      show ?thesis
      proof (cases "mInTag (helper S)")
        case False
        then have "attribute_record lib opc S =
            (Some AttributeOutsideTag, S\<lparr>stream := advance (2 + k) (stream S), helper := helper S\<rparr>)"
          by (simp add: ar rv addAttr_def)
        then show ?thesis
          using 3 Inr vk False d' r
          by (auto simp: round_matches_def pr opc_def[symmetric] p_def[symmetric])
      next
        case True
        from addAttr_sim[OF True, of name v H] obtain hh where hh:
          "addAttr name v (helper S) = (None, hh)" "mInTag hh" "mHandler hh = mHandler (helper S)"
          "run_item H (Item_attribute name v) (pend_of (helper S)) (mHandler (helper S))
             = (None, pend_of hh, mHandler (helper S))"
          by blast
        define S3 where "S3 = S\<lparr>stream := advance (2 + k) (stream S), helper := hh,
                                viewed := viewed S @ [ident]\<rparr>"
        have a3: "attribute_record lib opc S = (None, S3)"
          by (simp add: ar rv hh(1) S3_def)
        have s3: "stream S3 = advance (2 + k) (stream S)" "helper S3 = hh" "dangling S3 = dangling S"
          "reader_of S3 = (reader_of S)\<lparr>rd_viewed := viewed S @ [ident]\<rparr>"
          using True hh(2) by (simp_all add: S3_def reader_of_def)
        have hok: "helper_ok hh" using hh(2) by (simp add: helper_ok_def)
        show ?thesis
        proof (cases "opc = 9 \<or> opc = 10")
          case False
          have io: "items = [Item_attribute name v]"
            "out = Inr (3 + k, (reader_of S)\<lparr>rd_viewed := viewed S @ [ident]\<rparr>)"
            using d' 3 Inr vk True False by (simp_all add: name_def)
          from r io hh(4) have y: "y = None" "pend' = pend_of hh" "h' = mHandler (helper S)"
            by (simp_all only: run_items_single) simp_all
          have "parse_record lib H opc S = (None, S3)"
            using False by (simp add: pr a3)
          then show ?thesis
            using y io s3 hok sck hh(3)
            by (simp add: round_matches_def opc_def[symmetric] p_def[symmetric] drop_3_Cons)
        next
          case fd: True
          show ?thesis
          proof (cases "length p < 2 + k + 4")
            case short: True
            have io: "items = [Item_attribute name v]" "out = Inl overflow_error"
              using d' 3 Inr vk True fd short by (simp_all add: name_def)
            from r io hh(4) have y: "y = None" "pend' = pend_of hh" "h' = mHandler (helper S)"
              by (simp_all only: run_items_single) simp_all
            have "skip 4 (stream S3) = Inl overflow_error"
              using short kl 3(1) sck by (simp add: s3 skip_single p_def)
            then have "parse_record lib H opc S = (Some overflow_error, S3)"
              using fd by (simp add: pr a3)
            then show ?thesis
              using y io s3 hh(3)
              by (simp add: round_matches_def opc_def[symmetric] p_def[symmetric])
          next
            case long: False
            have io: "items = [Item_attribute name v]"
              "out = Inr (3 + k + 4, (reader_of S)\<lparr>rd_viewed := viewed S @ [ident]\<rparr>)"
              using d' 3 Inr vk True fd long by (simp_all add: name_def)
            from r io hh(4) have y: "y = None" "pend' = pend_of hh" "h' = mHandler (helper S)"
              by (simp_all only: run_items_single) simp_all
            have sk: "skip 4 (stream S3) = Inr (advance (2 + k + 4) (stream S))"
              using long kl 3(1) sck by (simp add: s3 skip_single p_def add.commute)
            have sc4: "single_chunk (advance (2 + k + 4) (stream S))"
              using long by (intro single_chunk_advance[OF sc]) (simp add: p_def)
            have "parse_record lib H opc S = (None, S3\<lparr>stream := advance (2 + k + 4) (stream S)\<rparr>)"
              using fd by (simp add: pr a3 sk)
            moreover have "drop (3 + k + 4) (c # p) = drop (2 + k + 4) p"
              using drop_3_Cons[of "k + 4" c p] by (simp add: add.assoc)
            ultimately show ?thesis
              using y io s3 hok sc4 hh(3)
              by (simp add: round_matches_def opc_def[symmetric] p_def[symmetric] S3_def
                  reader_of_def)
          qed
        qed
      qed
    qed
  qed
qed

lemma isEof_remaining: "stream_ok s \<Longrightarrow> isEof s \<longleftrightarrow> remaining s = []"
  using length_remaining[of s] by (auto simp: isEof_def stream_ok_def)

lemma round_matches_stream:
  "round_matches r (S\<lparr>stream := s\<rparr>) bytes out y pend' h' = round_matches r S bytes out y pend' h'"
  by (cases y; cases out) (simp_all add: round_matches_def)

lemma round_sim:
  assumes sc: "single_chunk (stream S)" and hk: "helper_ok (helper S)"
    and ne: "remaining (stream S) \<noteq> []"
    and d: "decode_record lib (reader_of S) (remaining (stream S)) = (items, out)"
    and r: "run_items H items (pend_of (helper S)) (mHandler (helper S)) = (y, pend', h')"
  shows "round_matches (parse_step lib H S) S (remaining (stream S)) out y pend' h'"
proof -
  from ne obtain c p where cp: "remaining (stream S) = c # p" by (cases "remaining (stream S)") auto
  define S1 where "S1 = S\<lparr>stream := advance 1 (stream S)\<rparr>"
  have ps: "parse_step lib H S = parse_record lib H (of_char c) S1"
    using sc cp by (simp add: parse_step_def read_u8_single S1_def le_nat_take_1)
  have sc1: "single_chunk (stream S1)"
    using cp by (simp add: S1_def single_chunk_advance[OF sc])
  have s0: "helper S1 = helper S" "reader_of S1 = reader_of S"
    by (simp_all add: S1_def reader_of_def advance_def)
  have "remaining (stream S1) = p"
    using cp by (simp add: S1_def)
  note s1 = s0 this
  have hk1: "helper_ok (helper S1)" using hk by (simp add: s1)
  have d1: "decode_record lib (reader_of S1) (c # remaining (stream S1)) = (items, out)"
    using d by (simp add: s1 cp)
  have r1: "run_items H items (pend_of (helper S1)) (mHandler (helper S1)) = (y, pend', h')"
    using r by (simp add: s1)
  consider "of_char c = (0 :: nat)" | "of_char c = (1 :: nat) \<or> of_char c = (2 :: nat)"
    | "3 \<le> (of_char c :: nat)" "(of_char c :: nat) \<le> 10" | "of_char c = (11 :: nat)"
    | "of_char c = (12 :: nat)" | "of_char c = (15 :: nat)"
    | "of_char c = (13 :: nat) \<or> of_char c = (14 :: nat) \<or> (15 :: nat) < of_char c"
    by linarith
  then have "round_matches (parse_record lib H (of_char c) S1) S1 (c # remaining (stream S1))
      out y pend' h'"
  proof cases
    case 1 then show ?thesis by (rule record_charsize[OF sc1 hk1 _ d1 r1])
  next
    case 2 then show ?thesis by (rule record_tag[OF sc1 hk1 _ d1 r1])
  next
    case 3 then show ?thesis by (rule record_attribute[OF sc1 hk1 _ _ d1 r1])
  next
    case 4 then show ?thesis by (rule record_data[OF sc1 hk1 _ d1 r1])
  next
    case 5 then show ?thesis by (rule record_raw[OF sc1 hk1 _ d1 r1])
  next
    case 6 then show ?thesis by (rule record_name[OF sc1 hk1 _ d1 r1])
  next
    case 7 then show ?thesis by (rule record_other[OF _ d1 r1])
  qed
  then have "round_matches (parse_record lib H (of_char c) S1) S1 (c # p) out y pend' h'"
    by (simp only: s1)
  then show ?thesis
    unfolding ps cp unfolding S1_def round_matches_stream .
qed

lemma run_items_append:
  "run_items H (items @ rest) pend h =
     (case run_items H items pend h of
        (Some e, pend', h') \<Rightarrow> (Some e, pend', h')
      | (None, pend', h') \<Rightarrow> run_items H rest pend' h')"
  by (induction items arbitrary: pend h) (auto split: prod.splits option.splits)

lemma deliver_append_None:
  "run_items H items pend h = (None, pend', h') \<Longrightarrow>
   deliver H (items @ rest) x d pend h = deliver H rest x d pend' h'"
  by (simp add: deliver_def run_items_append)

lemma deliver_append_Some:
  "run_items H items pend h = (Some e, pend', h') \<Longrightarrow>
   deliver H (items @ rest) x d pend h = finish H (Some e) False pend' h'"
  by (simp add: deliver_def run_items_append)

lemma deliver_None:
  "run_items H items pend h = (None, pend', h') \<Longrightarrow>
   deliver H items x d pend h = finish H x d pend' h'"
  by (simp add: deliver_def)

lemma deliver_Some:
  "run_items H items pend h = (Some e, pend', h') \<Longrightarrow>
   deliver H items x d pend h = finish H (Some e) False pend' h'"
  by (simp add: deliver_def)

lemma finish_not_dangling:
  "\<not> flushes_dangling S \<Longrightarrow>
   finish H x (dangling S) (pend_of (helper S)) h = finish H x False (pend_of (helper S)) h"
  by (auto simp: finish_def flushes_dangling_def pend_of_def)

lemma Parse_loop_sim:
  "single_chunk (stream S) \<Longrightarrow> helper_ok (helper S) \<Longrightarrow>
   (case Parse_loop lib H S of (x, S') \<Rightarrow> destroy_XMLHandlerHelper H x S') =
   (case decode lib (reader_of S) (remaining (stream S)) of
      (items, x, d) \<Rightarrow> deliver H items x d (pend_of (helper S)) (mHandler (helper S)))"
proof (induction lib H S rule: Parse_loop.induct)
  case (1 lib H S)
  note sc = "1.prems"(1) and hk = "1.prems"(2)
  have so: "stream_ok (stream S)" using sc by (simp add: single_chunk_def)
  show ?case
  proof (cases "isEof (stream S)")
    case True
    then have e: "remaining (stream S) = []" using isEof_remaining[OF so] by simp
    have "Parse_loop lib H S = (None, S)" using True by (simp add: Parse_loop.simps)
    moreover have "decode lib (reader_of S) [] = ([], None, dangling S)"
      by (simp add: decode.simps reader_of_def)
    ultimately show ?thesis
      by (simp add: e destroy_finish deliver_def)
  next
    case False
    then have ne: "remaining (stream S) \<noteq> []" using isEof_remaining[OF so] by simp
    obtain items out where d: "decode_record lib (reader_of S) (remaining (stream S)) = (items, out)"
      by (cases "decode_record lib (reader_of S) (remaining (stream S))")
    obtain y pend' h' where
      r: "run_items H items (pend_of (helper S)) (mHandler (helper S)) = (y, pend', h')"
      by (cases "run_items H items (pend_of (helper S)) (mHandler (helper S))" rule: prod_cases3)
    obtain x S' where ps: "parse_step lib H S = (x, S')" by (cases "parse_step lib H S")
    from round_sim[OF sc hk ne d r]
    have rm: "round_matches (x, S') S (remaining (stream S)) out y pend' h'" by (simp add: ps)
    then have ph: "pend_of (helper S') = pend'" "mHandler (helper S') = h'"
      by (simp_all add: round_matches_def)
    have rdd: "rd_dangling (reader_of S) = dangling S" by (simp add: reader_of_def)
    show ?thesis
    proof (cases y)
      case (Some e)
      with rm have x: "x = Some e" "\<not> flushes_dangling S'" by (simp_all add: round_matches_def)
      have l: "Parse_loop lib H S = (Some e, S')"
        using False ps x by (simp add: Parse_loop.simps)
      have rr: "run_items H items (pend_of (helper S)) (mHandler (helper S)) = (Some e, pend', h')"
        using r Some by simp
      have "(case decode lib (reader_of S) (remaining (stream S)) of
              (items, x, d) \<Rightarrow> deliver H items x d (pend_of (helper S)) (mHandler (helper S)))
            = finish H (Some e) False pend' h'"
        using ne d
        by (subst decode.simps)
           (auto simp: deliver_append_Some[OF rr] deliver_Some[OF rr] split: sum.splits prod.splits)
      then show ?thesis
        using finish_not_dangling[OF x(2), of H "Some e" h'] by (simp add: l destroy_finish ph)
    next
      case None
      have rr: "run_items H items (pend_of (helper S)) (mHandler (helper S)) = (None, pend', h')"
        using r None by simp
      show ?thesis
      proof (cases out)
        case (Inl e)
        with rm None have x: "x = Some e" "dangling S' = dangling S"
          by (simp_all add: round_matches_def)
        have l: "Parse_loop lib H S = (Some e, S')"
          using False ps x by (simp add: Parse_loop.simps)
        have "decode lib (reader_of S) (remaining (stream S)) = (items, Some e, dangling S)"
          using ne d Inl by (subst decode.simps) (simp add: rdd)
        then show ?thesis
          by (simp add: l destroy_finish ph x deliver_None[OF rr])
      next
        case (Inr krd)
        obtain k rd' where krd: "krd = (k, rd')" by (cases krd)
        with rm None Inr have x: "x = None" "single_chunk (stream S')" "helper_ok (helper S')"
          "remaining (stream S') = drop k (remaining (stream S))" "reader_of S' = rd'"
          by (simp_all add: round_matches_def)
        have l: "Parse_loop lib H S = Parse_loop lib H S'"
          using False ps x by (subst Parse_loop.simps) simp
        have ih: "(case Parse_loop lib H S' of (x, S') \<Rightarrow> destroy_XMLHandlerHelper H x S') =
            (case decode lib rd' (drop k (remaining (stream S))) of
               (items, x, d) \<Rightarrow> deliver H items x d pend' h')"
          using "1.IH"[OF False ps[symmetric] x(1) x(2) x(3)] by (simp add: x ph)
        have "(case decode lib (reader_of S) (remaining (stream S)) of
                (items, x, d) \<Rightarrow> deliver H items x d (pend_of (helper S)) (mHandler (helper S)))
              = (case decode lib rd' (drop k (remaining (stream S))) of
                   (items, x, d) \<Rightarrow> deliver H items x d pend' h')"
          using ne d Inr krd
          by (subst decode.simps) (auto simp: deliver_append_None[OF rr] split: prod.splits)
        then show ?thesis by (simp add: l ih)
      qed
    qed
  qed
qed

lemma new_Stream_single:
  "buffer_ok buffer \<Longrightarrow> getSize buffer \<le> BUFFER_SIZE \<Longrightarrow> single_chunk (new_Stream buffer)"
  by (simp add: single_chunk_def stream_ok_def new_Stream_def)

lemma remaining_new_Stream: "remaining (new_Stream buffer) = content buffer"
  by (simp add: remaining_def new_Stream_def)

lemma Parse_read_document:
  assumes "buffer_ok buffer" and "getSize buffer \<le> BUFFER_SIZE"
  shows "Parse lib H buffer handler = read_document lib H (getLinearRepresentation buffer) handler"
proof -
  define S where "S = \<lparr>stream = new_Stream buffer, lookup = [],
      helper = new_XMLHandlerHelper handler, viewed = [], dangling = False\<rparr>"
  have "single_chunk (stream S)" using assms by (simp add: S_def new_Stream_single)
  moreover have "helper_ok (helper S)" by (simp add: S_def helper_ok_def new_XMLHandlerHelper_def)
  ultimately have "(case Parse_loop lib H S of (x, S') \<Rightarrow> destroy_XMLHandlerHelper H x S') =
     (case decode lib (reader_of S) (remaining (stream S)) of
        (items, x, d) \<Rightarrow> deliver H items x d (pend_of (helper S)) (mHandler (helper S)))"
    by (rule Parse_loop_sim)
  moreover have "reader_of S = new_reader"
    by (simp add: S_def reader_of_def new_reader_def new_Stream_def new_XMLHandlerHelper_def)
  moreover have "remaining (stream S) = getLinearRepresentation buffer"
    using assms(1) by (simp add: S_def remaining_new_Stream linear_content)
  moreover have "pend_of (helper S) = None" "mHandler (helper S) = handler"
    by (simp_all add: S_def pend_of_def new_XMLHandlerHelper_def)
  ultimately show ?thesis
    by (simp add: Parse_def read_document_def S_def)
qed

subsection \<open>Examples\<close>

text \<open>A platform to run the parser on examples.\<close>

definition example_platform :: platform where
  "example_platform =
     \<lparr>utf16to8 = (\<lambda>bs. None), utf32to8 = (\<lambda>bs. None),
      float_to_int64 = (\<lambda>v. 0), double_to_int64 = (\<lambda>v. 0),
      float_to_int32 = (\<lambda>v. 0), double_to_int32 = (\<lambda>v. 0),
      arithmetic_to_double = (\<lambda>v. 0),
      from_chars_int64 = (\<lambda>s. None), from_chars_int32 = (\<lambda>s. None),
      from_chars_double = (\<lambda>s. None),
      raw_WaveBlock = (\<lambda>k. \<lparr>wb_mXMLNode = None, wb_mParent = 0, wb_mParentIndex = 0,
                              mStart = 0, mBlockId = 0\<rparr>),
      raw_Sequence = (\<lambda>k. \<lparr>sq_mXMLNode = None, sq_mParent = 0, sq_mParentIndex = 0,
                             mMaxSamples = 0, mNumSamples = 0, mFormat = 0, mBlocks = []\<rparr>),
      raw_Clip = (\<lambda>k. \<lparr>cl_mXMLNode = None, cl_mParent = 0, cl_mParentIndex = 0, cl_mName = [],
                         cl_mOffset = 0, mTrimLeft = 0, mTrimRight = 0, mSequences_of = []\<rparr>),
      raw_WaveTrack = (\<lambda>k. \<lparr>tr_mXMLNode = None, tr_mParentIndex = 0, tr_mName = [],
                              mSampleFormat = 0, mRate = 0, mChannel = 0, mLinked = False,
                              mClips_of = []\<rparr>),
      push_back_moves = (\<lambda>n. True)\<rparr>"

lemma small_document:
  assumes "length bytes \<le> BUFFER_SIZE"
  shows "buffer_ok (Buffer_append new_Buffer bytes) \<and>
         getSize (Buffer_append new_Buffer bytes) \<le> BUFFER_SIZE \<and>
         getLinearRepresentation (Buffer_append new_Buffer bytes) = bytes"
proof -
  let ?b = "Buffer_append new_Buffer bytes"
  have ok: "buffer_ok ?b" "content ?b = bytes"
    using Buffer_append_ok[OF new_Buffer_ok[THEN conjunct1], of bytes] new_Buffer_ok by simp_all
  then have "getSize ?b = length bytes" using length_content[of ?b] by simp
  then show ?thesis using ok assms by (simp add: linear_content)
qed

lemma decode_Nil: "decode lib rd [] = ([], None, rd_dangling rd)"
  by (simp add: decode.simps)

lemma decode_Cons:
  "decode lib rd (c # cs) =
     (case decode_record lib rd (c # cs) of
        (items, Inl e) \<Rightarrow> (items, Some e, rd_dangling rd)
      | (items, Inr (k, rd')) \<Rightarrow>
          (case decode lib rd' (drop k (c # cs)) of
             (rest, x, d) \<Rightarrow> (items @ rest, x, d)))"
  by (subst decode.simps) simp


lemmas decode_eval =
  decode_Cons decode_Nil decode_record_def decode_value_def decode_string_def store_name_def
  new_reader_def Let_def

definition example_document :: "byte list" where
  "example_document =
     [CHR 0x00, CHR 0x01,
      CHR 0x0F, CHR 0x00, CHR 0x00, CHR 0x01, CHR 0x00, CHR 0x61,
      CHR 0x01, CHR 0x00, CHR 0x00,
      CHR 0x04, CHR 0x00, CHR 0x00, CHR 0x2A, CHR 0x00, CHR 0x00, CHR 0x00,
      CHR 0x0D]"

lemma decode_example_document:
  "decode example_platform new_reader example_document =
     ([Item_start ''a'', Item_attribute ''a'' (AV_int32 42)], Some UnsupportedOpcode, False)"
  by (simp add: decode_eval example_document_def)

lemma read_example_document:
  "read_document example_platform (AudacityProject_handler example_platform) example_document
     new_AudacityProject =
   (Some UnsupportedOpcode,
    new_AudacityProject
      \<lparr>mProjectNode := Some (ProjectTreeNode ''a'' [\<lparr>Name = ''a'', Value = AV_int32 42\<rparr>] [] 0 []),
       mReusableStringsCache := [''a'']\<rparr>)"
  by (simp add: read_document_def decode_example_document deliver_def finish_def flush_pending_def
      AudacityProject_handler_def AudacityProject_HandleTagStart_def AudacityProject_HandleTagEnd_def
      new_AudacityProject_def invalidate_nodes_def CacheString_def cache_attribute_def
      deserialize_node_def top_ptr_def Let_def)

text \<open>
  C7, as amended. On a buffer of one chunk (at most \<open>BUFFER_SIZE\<close> bytes) \<open>Parse\<close> is
  \<open>read_document\<close> on the bytes of the buffer, whatever the handler is. So \<open>Parse\<close> reads the
  records in their order and throws exactly
  \<^item> at the first malformed record: an opcode that is none of 0 to 12 and 15; a field that
    reaches past the end of the buffer, among them a string that is longer than the bytes
    left; a string (\<open>String\<close>, \<open>Data\<close>, \<open>Name\<close>) read while the char size is 0, which is so
    before the first \<open>CharSize\<close> record and after a \<open>CharSize\<close> record of width 0, or while
    it is none of 1, 2 and 4; a string that cannot be transcoded; the id of a \<open>StartTag\<close>, an
    \<open>EndTag\<close> or an attribute that has no name yet; an attribute while no start tag is open;
  \<^item> or at the first record at which the handler throws.
  A \<open>CharSize\<close> record of any width is accepted. When \<open>Parse\<close> ends, with an exception or
  without one, a start tag that is still open is handed to the handler and closed, and an
  exception of the handler then ends the program (\<open>terminate_called\<close>). The behaviour is
  undefined, and \<open>UndefinedBehaviour\<close> stands for it on both sides, when a \<open>Bool\<close> is
  neither 0 nor 1, when the id of a \<open>Name\<close> is neither the next one nor the last one, and
  when a start tag is handed to the handler after a name it refers to has been moved or
  redefined.
\<close>

theorem C7_Parse_reads_document:
  assumes "buffer_ok buffer" and "getSize buffer \<le> BUFFER_SIZE"
  shows "Parse lib H buffer handler = read_document lib H (getLinearRepresentation buffer) handler"
  using assms by (rule Parse_read_document)

theorem C7_counterexample:
  "fst (Parse example_platform (AudacityProject_handler example_platform)
          (Buffer_append new_Buffer [CHR 0x00, CHR 0x03]) new_AudacityProject) = None \<and>
   fst (Parse example_platform (AudacityProject_handler example_platform)
          (Buffer_append new_Buffer [CHR 0x01, CHR 0x00, CHR 0x00]) new_AudacityProject)
     = Some out_of_range"
proof
  have "length [CHR 0x00, CHR 0x03] \<le> BUFFER_SIZE" by (simp add: BUFFER_SIZE_def)
  note b = small_document[OF this]
  have "decode example_platform new_reader [CHR 0x00, CHR 0x03] = ([], None, False)"
    by (simp add: decode_eval)
  then have "fst (read_document example_platform (AudacityProject_handler example_platform)
      [CHR 0x00, CHR 0x03] new_AudacityProject) = None"
    by (simp add: read_document_def deliver_def finish_def)
  then show "fst (Parse example_platform (AudacityProject_handler example_platform)
          (Buffer_append new_Buffer [CHR 0x00, CHR 0x03]) new_AudacityProject) = None"
    using Parse_read_document[OF b[THEN conjunct1] b[THEN conjunct2, THEN conjunct1],
        of example_platform "AudacityProject_handler example_platform" new_AudacityProject] b
    by simp
next
  have "length [CHR 0x01, CHR 0x00, CHR 0x00] \<le> BUFFER_SIZE" by (simp add: BUFFER_SIZE_def)
  note b = small_document[OF this]
  have "decode example_platform new_reader [CHR 0x01, CHR 0x00, CHR 0x00]
      = ([], Some out_of_range, False)"
    by (simp add: decode_eval)
  then have "fst (read_document example_platform (AudacityProject_handler example_platform)
      [CHR 0x01, CHR 0x00, CHR 0x00] new_AudacityProject) = Some out_of_range"
    by (simp add: read_document_def deliver_def finish_def)
  then show "fst (Parse example_platform (AudacityProject_handler example_platform)
          (Buffer_append new_Buffer [CHR 0x01, CHR 0x00, CHR 0x00]) new_AudacityProject)
     = Some out_of_range"
    using Parse_read_document[OF b[THEN conjunct1] b[THEN conjunct2, THEN conjunct1],
        of example_platform "AudacityProject_handler example_platform" new_AudacityProject] b
    by simp
qed

theorem C7_Parse_reads_document_witness:
  "buffer_ok (Buffer_append new_Buffer example_document) \<and>
   getSize (Buffer_append new_Buffer example_document) \<le> BUFFER_SIZE \<and>
   Parse example_platform (AudacityProject_handler example_platform)
     (Buffer_append new_Buffer example_document) new_AudacityProject =
   (Some UnsupportedOpcode,
    new_AudacityProject
      \<lparr>mProjectNode := Some (ProjectTreeNode ''a'' [\<lparr>Name = ''a'', Value = AV_int32 42\<rparr>] [] 0 []),
       mReusableStringsCache := [''a'']\<rparr>)"
proof -
  have "length example_document \<le> BUFFER_SIZE" by (simp add: example_document_def BUFFER_SIZE_def)
  note b = small_document[OF this]
  show ?thesis
    using C7_Parse_reads_document[OF b[THEN conjunct1] b[THEN conjunct2, THEN conjunct1],
        of example_platform "AudacityProject_handler example_platform" new_AudacityProject] b
    by (simp add: read_example_document)
qed

end
